theory Spec2Isabelle
  imports Main "HOL-Library.Word"
begin

unbundle bit_operations_syntax

section \<open>Configuration block of main.cpp\<close>

text \<open>
  The search engine of \<^verbatim>\<open>main.cpp\<close> is a set of templates over a hash class \<^verbatim>\<open>HASH\<close>;
  its configuration is a block of compile-time constants. Bytes are \<^typ>\<open>8 word\<close>, byte
  arrays are lists, and the counters of type \<^verbatim>\<open>std::size_t\<close> are natural numbers: a
  counter is incremented once per hash evaluation, so that it cannot wrap around before
  \<open>2 ^ 64\<close> evaluations of one walker.
\<close>

type_synonym byte = "8 word"
type_synonym HASH_IN = "byte list"
type_synonym HASH_OUT = "byte list"

definition N :: nat where "N = 8"
definition K :: nat where "K = 2"
definition prefix :: "byte list" where "prefix = [0x00, 0x11, 0x22, 0x33]"
definition suffix :: "byte list" where "suffix = [0x33, 0x22, 0x11, 0x00]"
definition THREADS :: nat where "THREADS = 20000"
definition BATCH_SIZE :: nat where "BATCH_SIZE = 100000"
definition DP_ARRAY_LEN :: nat where "DP_ARRAY_LEN = 100"

text \<open>
  The template parameter \<^verbatim>\<open>HASH\<close>: the engine uses its constant \<^verbatim>\<open>OUTPUT_SIZE\<close> and the
  call sequence \<^verbatim>\<open>HASH h; h.update(in.data(), in.size()); h.digest(out.data())\<close> on a fresh
  object, which is the function \<open>hash_of\<close> from the message to the digest.
\<close>

record HASH =
  OUTPUT_SIZE :: nat
  hash_of :: "byte list \<Rightarrow> byte list"

section \<open>sha2.hpp: the class \<^verbatim>\<open>_SHA2_Base\<close> at the parameters of SHA256\<close>

definition rotate_left :: "'a::len word \<Rightarrow> nat \<Rightarrow> 'a word" where
  "rotate_left a n = push_bit n a OR drop_bit (LENGTH('a) - n) a"

definition rotate_right :: "'a::len word \<Rightarrow> nat \<Rightarrow> 'a word" where
  "rotate_right a n = drop_bit n a OR push_bit (LENGTH('a) - n) a"

text \<open>\<^verbatim>\<open>message_to_blocks\<close>: big-endian words read from a byte buffer.\<close>

definition message_to_blocks :: "nat \<Rightarrow> byte list \<Rightarrow> 'a::len word list" where
  "message_to_blocks BLOCK_LEN message =
     map (\<lambda>i. foldl (\<lambda>blk j. push_bit 8 blk OR ucast (message ! (i * (LENGTH('a) div 8) + j)))
                  0 [0..<LENGTH('a) div 8])
         [0..<BLOCK_LEN]"

text \<open>\<^verbatim>\<open>blocks_to_bytes\<close>: the bytes written to \<^verbatim>\<open>out\<close>, in order.\<close>

definition blocks_to_bytes :: "'a::len word list \<Rightarrow> byte list" where
  "blocks_to_bytes blocks =
     concat (map (\<lambda>blk. map (\<lambda>j. ucast (drop_bit (8 * (LENGTH('a) div 8 - j - 1)) blk AND 0xFF))
                            [0..<LENGTH('a) div 8])
                 blocks)"

definition sigma_0_256 :: "32 word \<Rightarrow> 32 word" where
  "sigma_0_256 x = rotate_right x 7 XOR rotate_right x 18 XOR drop_bit 3 x"

definition sigma_1_256 :: "32 word \<Rightarrow> 32 word" where
  "sigma_1_256 x = rotate_right x 17 XOR rotate_right x 19 XOR drop_bit 10 x"

definition big_sigma_0_256 :: "32 word \<Rightarrow> 32 word" where
  "big_sigma_0_256 x = rotate_right x 2 XOR rotate_right x 13 XOR rotate_right x 22"

definition big_sigma_1_256 :: "32 word \<Rightarrow> 32 word" where
  "big_sigma_1_256 x = rotate_right x 6 XOR rotate_right x 11 XOR rotate_right x 25"

text \<open>\<^verbatim>\<open>_ROUND_CONSTANTS_256\<close>, one row for each line of the table in the header.\<close>

definition ROUND_CONSTANTS_256 :: "32 word list" where
  "ROUND_CONSTANTS_256 =
     [0x428a2f98, 0x71374491, 0xb5c0fbcf, 0xe9b5dba5, 0x3956c25b, 0x59f111f1, 0x923f82a4, 0xab1c5ed5] @
     [0xd807aa98, 0x12835b01, 0x243185be, 0x550c7dc3, 0x72be5d74, 0x80deb1fe, 0x9bdc06a7, 0xc19bf174] @
     [0xe49b69c1, 0xefbe4786, 0x0fc19dc6, 0x240ca1cc, 0x2de92c6f, 0x4a7484aa, 0x5cb0a9dc, 0x76f988da] @
     [0x983e5152, 0xa831c66d, 0xb00327c8, 0xbf597fc7, 0xc6e00bf3, 0xd5a79147, 0x06ca6351, 0x14292967] @
     [0x27b70a85, 0x2e1b2138, 0x4d2c6dfc, 0x53380d13, 0x650a7354, 0x766a0abb, 0x81c2c92e, 0x92722c85] @
     [0xa2bfe8a1, 0xa81a664b, 0xc24b8b70, 0xc76c51a3, 0xd192e819, 0xd6990624, 0xf40e3585, 0x106aa070] @
     [0x19a4c116, 0x1e376c08, 0x2748774c, 0x34b0bcb5, 0x391c0cb3, 0x4ed8aa4a, 0x5b9cca4f, 0x682e6ff3] @
     [0x748f82ee, 0x78a5636f, 0x84c87814, 0x8cc70208, 0x90befffa, 0xa4506ceb, 0xbef9a3f7, 0xc67178f2]"

definition SHA_CH :: "32 word \<Rightarrow> 32 word \<Rightarrow> 32 word \<Rightarrow> 32 word" where
  "SHA_CH x y z = (x AND y) XOR ((NOT x) AND z)"

definition SHA_MAJ :: "32 word \<Rightarrow> 32 word \<Rightarrow> 32 word \<Rightarrow> 32 word" where
  "SHA_MAJ x y z = (x AND y) XOR (x AND z) XOR (y AND z)"

definition CEIL_DIV :: "nat \<Rightarrow> nat \<Rightarrow> nat" where
  "CEIL_DIV a m = (a + m - 1) div m"

text \<open>
  The object state of \<^verbatim>\<open>_SHA2_Base\<close> for \<^verbatim>\<open>N = 32\<close> (block of \<open>2 * N = 64\<close> bytes),
  \<^verbatim>\<open>M = 32\<close>, \<^verbatim>\<open>word_t = uint32_t\<close> and \<^verbatim>\<open>T = 64\<close>, which is the class \<^verbatim>\<open>SHA256\<close> selected by
  \<^verbatim>\<open>hash_type\<close>. The buffer \<^verbatim>\<open>tmp_message\<close> is not initialised by the source; only the bytes
  that \<^verbatim>\<open>update\<close> has written are ever read.
\<close>

record sha2 =
  tmp_message :: "byte list"
  offset :: nat
  consumed_len :: nat
  hash_val :: "32 word list"

datatype sha_fault = Loops_forever | Pad_out_of_bounds

definition INIT_HASH_VAL_256 :: "32 word list" where
  "INIT_HASH_VAL_256 =
     [0x6a09e667, 0xbb67ae85, 0x3c6ef372, 0xa54ff53a, 0x510e527f, 0x9b05688c, 0x1f83d9ab, 0x5be0cd19]"

definition sha2_new :: sha2 where
  "sha2_new = \<lparr>tmp_message = replicate 64 0, offset = 0, consumed_len = 0,
               hash_val = INIT_HASH_VAL_256\<rparr>"

text \<open>\<^verbatim>\<open>sha_pad_end\<close>: the padding bytes written from \<^verbatim>\<open>out\<close> on, for \<open>B = 64\<close>.\<close>

definition sha_pad_end :: "nat \<Rightarrow> byte list" where
  "sha_pad_end len =
     (let B = 64;
          min_pad_len = B div 8 + 1;
          out_len = B * CEIL_DIV (len + min_pad_len) B;
          zero_pad_len = out_len - len - min_pad_len
      in [0x80] @ replicate zero_pad_len 0 @ blocks_to_bytes [(of_nat len :: 64 word) * 8])"

text \<open>The message schedule: \<^verbatim>\<open>w\<close> is zero-filled, receives the block, then \<^verbatim>\<open>w[16..T)\<close>.\<close>

definition message_schedule :: "32 word list \<Rightarrow> 32 word list" where
  "message_schedule msg_block =
     fold (\<lambda>i w. w[i := sigma_1_256 (w ! (i - 2)) + w ! (i - 7)
                         + sigma_0_256 (w ! (i - 15)) + w ! (i - 16)])
          [16..<64] (msg_block @ replicate (64 - length msg_block) 0)"

type_synonym sha_vars =
  "32 word \<times> 32 word \<times> 32 word \<times> 32 word \<times> 32 word \<times> 32 word \<times> 32 word \<times> 32 word"

definition sha2_round :: "32 word list \<Rightarrow> nat \<Rightarrow> sha_vars \<Rightarrow> sha_vars" where
  "sha2_round w i = (\<lambda>(a, b, c, d, e, f, g, h).
     let t1 = h + big_sigma_1_256 e + SHA_CH e f g + ROUND_CONSTANTS_256 ! i + w ! i;
         t2 = big_sigma_0_256 a + SHA_MAJ a b c
     in (t1 + t2, a, b, c, d + t1, e, f, g))"

definition sha2_compression :: "32 word list \<Rightarrow> 32 word list \<Rightarrow> 32 word list" where
  "sha2_compression hv msg_block =
     (let w = message_schedule msg_block
      in case fold (sha2_round w) [0..<64]
                (hv ! 0, hv ! 1, hv ! 2, hv ! 3, hv ! 4, hv ! 5, hv ! 6, hv ! 7) of
           (a, b, c, d, e, f, g, h) \<Rightarrow>
             [hv ! 0 + a, hv ! 1 + b, hv ! 2 + c, hv ! 3 + d,
              hv ! 4 + e, hv ! 5 + f, hv ! 6 + g, hv ! 7 + h])"

text \<open>\<^verbatim>\<open>_update\<close>: one block of 64 bytes read at \<^verbatim>\<open>message\<close>.\<close>

definition sha2_update_block :: "byte list \<Rightarrow> sha2 \<Rightarrow> sha2" where
  "sha2_update_block message s =
     s\<lparr>hash_val := sha2_compression (hash_val s) (message_to_blocks 16 message)\<rparr>"

text \<open>\<^verbatim>\<open>std::copy(first, last, dst + pos)\<close> into a buffer that holds the range.\<close>

definition copy_to :: "'a list \<Rightarrow> 'a list \<Rightarrow> nat \<Rightarrow> 'a list" where
  "copy_to src dst pos = take pos dst @ src @ drop (pos + length src) dst"

text \<open>
  \<^verbatim>\<open>update\<close>. Its loop \<^verbatim>\<open>while (consumed_len % MESSAGE_BLOCK_SIZE == 0)\<close> is left only by a
  copy of 1 to 63 bytes; once the message is used up with \<^verbatim>\<open>consumed_len\<close> on a block
  boundary, \<^verbatim>\<open>copy_len\<close> stays 0 and the loop never exits, which is the value
  \<open>Inl Loops_forever\<close>.
\<close>

function sha2_update_loop :: "byte list \<Rightarrow> nat \<Rightarrow> sha2 \<Rightarrow> sha_fault + sha2" where
  "sha2_update_loop msg bytes_copied s =
     (if consumed_len s mod 64 = 0 then
        (if length msg \<le> bytes_copied then Inl Loops_forever
         else
           let s1 = sha2_update_block (tmp_message s) s;
               copy_len = min (length msg - bytes_copied) 64;
               s2 = s1\<lparr>tmp_message :=
                         copy_to (take copy_len (drop bytes_copied msg)) (tmp_message s1) 0,
                       consumed_len := consumed_len s1 + copy_len\<rparr>
           in sha2_update_loop msg (bytes_copied + copy_len) s2)
      else Inr s)"
  by pat_completeness auto
termination
  by (relation "measure (\<lambda>(msg, bytes_copied, s). length msg - bytes_copied)") auto

declare sha2_update_loop.simps [simp del]

definition sha2_update :: "byte list \<Rightarrow> sha2 \<Rightarrow> sha_fault + sha2" where
  "sha2_update msg s =
     (let bytes_copied = min (length msg) (64 - consumed_len s mod 64);
          s1 = s\<lparr>tmp_message :=
                    copy_to (take bytes_copied msg) (tmp_message s) (consumed_len s mod 64),
                  consumed_len := consumed_len s + bytes_copied\<rparr>
      in sha2_update_loop msg bytes_copied s1)"

text \<open>
  \<^verbatim>\<open>_digest\<close> followed by \<^verbatim>\<open>digest\<close>. The padding is written into the one-block buffer
  \<^verbatim>\<open>padded_tmp_message\<close>; with 56 or more bytes pending it would not fit.
\<close>

definition sha2_digest :: "sha2 \<Rightarrow> sha_fault + byte list" where
  "sha2_digest s =
     (let pending = consumed_len s mod 64;
          padded_tmp_message = take pending (tmp_message s) @ sha_pad_end (consumed_len s)
      in if 64 < length padded_tmp_message then Inl Pad_out_of_bounds
         else Inr (take 32 (blocks_to_bytes
                     (hash_val (sha2_update_block padded_tmp_message s)))))"

definition sha256_run :: "byte list \<Rightarrow> sha_fault + byte list" where
  "sha256_run msg =
     (case sha2_update msg sha2_new of Inl e \<Rightarrow> Inl e | Inr s \<Rightarrow> sha2_digest s)"

text \<open>
  The class \<^verbatim>\<open>SHA256\<close> as a \<^typ>\<open>HASH\<close>. The engine hashes inputs of 16 bytes only, for which
  \<open>sha256_run\<close> returns a digest; a run without a digest is given the empty list.
\<close>

definition SHA256 :: HASH where
  "SHA256 = \<lparr>OUTPUT_SIZE = 32,
             hash_of = (\<lambda>msg. case sha256_run msg of Inl e \<Rightarrow> [] | Inr d \<Rightarrow> d)\<rparr>"


section \<open>main.cpp: inputs, distinguishable points and the walker\<close>

definition HASH_IN_SIZE :: nat where
  "HASH_IN_SIZE = length prefix + length suffix + N"

text \<open>
  \<^verbatim>\<open>format_input\<close>. The local array \<^verbatim>\<open>input\<close> is not initialised by the source;
  \<open>format_input_into\<close> takes its initial contents, and \<open>format_input\<close> starts from zeros.
\<close>

definition format_input_into :: "HASH_IN \<Rightarrow> byte list \<Rightarrow> HASH_IN" where
  "format_input_into input h =
     (let input1 = copy_to prefix input 0;
          INPUT_SPACE = length input1 - (length prefix + length suffix);
          input2 = copy_to (take INPUT_SPACE h) input1 (length prefix);
          input3 = copy_to suffix input2 (length prefix + INPUT_SPACE)
      in input3)"

definition format_input :: "byte list \<Rightarrow> HASH_IN" where
  "format_input h = format_input_into (replicate HASH_IN_SIZE 0) h"

record DP =
  dp_in :: HASH_IN
  dp_hash :: HASH_OUT
  dp_steps_since_last_dp :: nat

text \<open>
  \<^verbatim>\<open>DP_KEY\<close> wraps a digest. Its \<^verbatim>\<open>operator==\<close> is \<^verbatim>\<open>memcmp\<close> over \<open>N\<close> bytes; its
  \<^verbatim>\<open>std::hash\<close> reads a \<^verbatim>\<open>std::size_t\<close> (8 bytes, least significant first on the
  little-endian targets of the compiler) at offset \<open>K\<close> of the digest.
\<close>

definition DP_KEY_eq :: "HASH_OUT \<Rightarrow> HASH_OUT \<Rightarrow> bool" where
  "DP_KEY_eq k1 k2 = (take N k1 = take N k2)"

definition load_le :: "byte list \<Rightarrow> 'a::len word" where
  "load_le bs = foldr (\<lambda>b w. push_bit 8 w OR ucast b) bs 0"

definition DP_KEY_hash :: "HASH_OUT \<Rightarrow> 64 word" where
  "DP_KEY_hash v = load_le (take 8 (drop K v))"

text \<open>
  \<^verbatim>\<open>DPArray\<close>: an array of \<open>DP_ARRAY_LEN\<close> records and a count. \<^verbatim>\<open>append\<close> writes
  \<^verbatim>\<open>data[dp_count]\<close> without a check; a write at an index outside the array is undefined
  behaviour in C++, which is the value \<open>Inl DP_array_overflow\<close> here.
\<close>

record DPArray =
  data :: "DP list"
  dp_count :: nat

datatype fault = DP_array_overflow | Hash_requirement_violated

definition DPArray_elems :: "DPArray \<Rightarrow> DP list" where
  "DPArray_elems a = take (dp_count a) (data a)"

definition DPArray_append :: "DPArray \<Rightarrow> HASH_IN \<Rightarrow> HASH_OUT \<Rightarrow> nat \<Rightarrow> fault + DPArray" where
  "DPArray_append a i h s =
     (if dp_count a < DP_ARRAY_LEN
      then Inr (a\<lparr>data := (data a)[dp_count a :=
                          \<lparr>dp_in = i, dp_hash = h, dp_steps_since_last_dp = s\<rparr>],
                  dp_count := dp_count a + 1\<rparr>)
      else Inl DP_array_overflow)"

text \<open>
  \<^verbatim>\<open>hash_from_seed\<close>: a zeroed digest whose first bytes receive the object representation
  of \<^verbatim>\<open>seed\<close> (\<^verbatim>\<open>uint32_t\<close> in the kernel, \<^verbatim>\<open>std::size_t\<close> on the host).
\<close>

definition store_le :: "'a::len word \<Rightarrow> byte list" where
  "store_le w = map (\<lambda>i. ucast (drop_bit (8 * i) w)) [0..<LENGTH('a) div 8]"

definition hash_from_seed :: "HASH \<Rightarrow> 'a::len word \<Rightarrow> HASH_OUT" where
  "hash_from_seed H seed = copy_to (store_le seed) (replicate (OUTPUT_SIZE H) 0) 0"

text \<open>
  \<^verbatim>\<open>State\<close>. Its member \<^verbatim>\<open>dp_array\<close> points to the walker's own element of
  \<^verbatim>\<open>device_dp_arrays\<close> from the first kernel on; \<open>step\<close> takes and returns that array
  together with the state.
\<close>

record State =
  hash_count :: nat
  steps_since_last_dp :: nat
  last_dp :: HASH_IN
  hash :: HASH_OUT

definition State_init :: "HASH \<Rightarrow> 32 word \<Rightarrow> State" where
  "State_init H seed =
     (let h0 = hash_from_seed H seed;
          input = format_input h0
      in \<lparr>hash_count = 0 + 1, steps_since_last_dp = 0 + 1, last_dp = input,
          hash = hash_of H input\<rparr>)"

definition ZERO_HASH :: "HASH \<Rightarrow> HASH_OUT" where
  "ZERO_HASH H = replicate (OUTPUT_SIZE H) 0"

definition is_dp :: "HASH \<Rightarrow> State \<Rightarrow> bool" where
  "is_dp H st = (take K (hash st) = take K (ZERO_HASH H))"

definition step :: "HASH \<Rightarrow> State \<times> DPArray \<Rightarrow> fault + State \<times> DPArray" where
  "step H = (\<lambda>(st, arr).
     let input = format_input (hash st);
         st1 = st\<lparr>hash := hash_of H input\<rparr>;
         st2 = st1\<lparr>steps_since_last_dp := steps_since_last_dp st1 + 1\<rparr>;
         st3 = st2\<lparr>hash_count := hash_count st2 + 1\<rparr>
     in if is_dp H st3 then
          (case DPArray_append arr input (hash st3) (steps_since_last_dp st3) of
             Inl e \<Rightarrow> Inl e
           | Inr arr' \<Rightarrow> Inr (st3\<lparr>last_dp := input, steps_since_last_dp := 0\<rparr>, arr'))
        else Inr (st3, arr))"

text \<open>
  The first statements of the initial kernel for the walker \<^verbatim>\<open>idx\<close>: construct the state
  from the seed \<^verbatim>\<open>static_cast<uint32_t>(idx)\<close> and clear the walker's array.
\<close>

definition init_worker :: "HASH \<Rightarrow> nat \<Rightarrow> DPArray \<Rightarrow> State \<times> DPArray" where
  "init_worker H idx arr = (State_init H (of_nat idx), arr\<lparr>dp_count := 0\<rparr>)"

text \<open>The fixed-point map of the design, \<open>f(h) = SHA(P || h[0..N) || S)\<close>.\<close>

definition fixed_point_map :: "HASH \<Rightarrow> HASH_OUT \<Rightarrow> HASH_OUT" where
  "fixed_point_map H h = hash_of H (prefix @ take N h @ suffix)"


section \<open>main.cpp: Stage 2\<close>

record StageOneResult =
  x_steps :: nat
  y_steps :: nat
  total_hash_counts :: nat
  res_x :: HASH_IN
  res_y :: HASH_IN
  dp_collided :: HASH_OUT
  found :: bool

record StageTwoState =
  s2_in :: HASH_IN
  s2_out :: HASH_OUT
  s2_hash_count :: nat

definition StageTwoState_init :: "HASH \<Rightarrow> HASH_IN \<Rightarrow> StageTwoState" where
  "StageTwoState_init H inp = \<lparr>s2_in = inp, s2_out = hash_of H inp, s2_hash_count = 0 + 1\<rparr>"

definition StageTwoState_eq :: "StageTwoState \<Rightarrow> StageTwoState \<Rightarrow> bool" where
  "StageTwoState_eq a b = (take N (s2_out a) = take N (s2_out b))"

definition StageTwoState_step :: "HASH \<Rightarrow> StageTwoState \<Rightarrow> StageTwoState" where
  "StageTwoState_step H s =
     (let i = format_input (s2_out s)
      in s\<lparr>s2_in := i, s2_out := hash_of H i, s2_hash_count := s2_hash_count s + 1\<rparr>)"

text \<open>\<^verbatim>\<open>for (; x_steps > y_steps; --x_steps) x_state.step();\<close>\<close>

function align_x_loop :: "HASH \<Rightarrow> StageTwoState \<Rightarrow> nat \<Rightarrow> nat \<Rightarrow> StageTwoState \<times> nat" where
  "align_x_loop H x_state xs ys =
     (if xs > ys then align_x_loop H (StageTwoState_step H x_state) (xs - 1) ys
      else (x_state, xs))"
  by pat_completeness auto
termination
  by (relation "measure (\<lambda>(H, x_state, xs, ys). xs - ys)") auto

declare align_x_loop.simps [simp del]

text \<open>\<^verbatim>\<open>for (; x_steps < y_steps; --y_steps) y_state.step();\<close>\<close>

function align_y_loop :: "HASH \<Rightarrow> StageTwoState \<Rightarrow> nat \<Rightarrow> nat \<Rightarrow> StageTwoState \<times> nat" where
  "align_y_loop H y_state xs ys =
     (if xs < ys then align_y_loop H (StageTwoState_step H y_state) xs (ys - 1)
      else (y_state, ys))"
  by pat_completeness auto
termination
  by (relation "measure (\<lambda>(H, y_state, xs, ys). ys - xs)") auto

declare align_y_loop.simps [simp del]

text \<open>
  \<^verbatim>\<open>for (; x_state != y_state && x_steps > 0 && y_steps > 0; --x_steps, --y_steps)\<close>
  steps both states.
\<close>

function walk_loop ::
  "HASH \<Rightarrow> StageTwoState \<Rightarrow> StageTwoState \<Rightarrow> nat \<Rightarrow> nat
     \<Rightarrow> StageTwoState \<times> StageTwoState \<times> nat \<times> nat" where
  "walk_loop H x_state y_state xs ys =
     (if \<not> StageTwoState_eq x_state y_state \<and> xs > 0 \<and> ys > 0
      then walk_loop H (StageTwoState_step H x_state) (StageTwoState_step H y_state)
             (xs - 1) (ys - 1)
      else (x_state, y_state, xs, ys))"
  by pat_completeness auto
termination
  by (relation "measure (\<lambda>(H, x_state, y_state, xs, ys). xs)") auto

declare walk_loop.simps [simp del]

text \<open>The two states and counters after the two alignment loops.\<close>

definition stage_two_align ::
  "HASH \<Rightarrow> StageOneResult \<Rightarrow> StageTwoState \<times> StageTwoState \<times> nat \<times> nat" where
  "stage_two_align H stage_one =
     (let x_state = StageTwoState_init H (res_x stage_one);
          y_state = StageTwoState_init H (res_y stage_one)
      in case align_x_loop H x_state (x_steps stage_one) (y_steps stage_one) of
           (x_state1, xs) \<Rightarrow>
             (case align_y_loop H y_state xs (y_steps stage_one) of
                (y_state1, ys) \<Rightarrow> (x_state1, y_state1, xs, ys)))"

definition vow_stage_two :: "HASH \<Rightarrow> StageOneResult \<Rightarrow> StageTwoState \<times> StageTwoState" where
  "vow_stage_two H stage_one =
     (case stage_two_align H stage_one of
        (x_state, y_state, xs, ys) \<Rightarrow>
          (case walk_loop H x_state y_state xs ys of
             (x_state1, y_state1, xs1, ys1) \<Rightarrow> (x_state1, y_state1)))"

section \<open>main.cpp: Stage 1\<close>

text \<open>
  The chain table \<^verbatim>\<open>dp_map\<close> is a \<^verbatim>\<open>std::unordered_map\<close> from \<^verbatim>\<open>DP_KEY\<close> to (chain start,
  chain length), here the list of its bindings in the order of insertion. The container
  requires of its hash function that keys which compare equal have the same hash value;
  a lookup that meets a stored key equal to the searched one with another hash value has
  no defined result, which is \<open>Inl Hash_requirement_violated\<close>: the container searches
  the bucket of the hash value of the searched key only, and reports the key absent
  unless the two hash values fall into the same bucket.
\<close>

type_synonym chain_table = "(HASH_OUT \<times> HASH_IN \<times> nat) list"

definition dp_map_find :: "chain_table \<Rightarrow> HASH_OUT \<Rightarrow> fault + (HASH_IN \<times> nat) option" where
  "dp_map_find m k =
     (if list_ex (\<lambda>e. DP_KEY_eq (fst e) k \<and> DP_KEY_hash (fst e) \<noteq> DP_KEY_hash k) m
      then Inl Hash_requirement_violated
      else Inr (map_option snd (find (\<lambda>e. DP_KEY_eq (fst e) k) m)))"

text \<open>\<^verbatim>\<open>dp_map[k] = v\<close>: assigns to the binding of an equal key, or adds one.\<close>

definition dp_map_assign :: "chain_table \<Rightarrow> HASH_OUT \<Rightarrow> HASH_IN \<times> nat \<Rightarrow> chain_table" where
  "dp_map_assign m k v =
     (if list_ex (\<lambda>e. DP_KEY_eq (fst e) k) m
      then map (\<lambda>e. if DP_KEY_eq (fst e) k then (fst e, v) else e) m
      else m @ [(k, v)])"

text \<open>
  The local variables of \<^verbatim>\<open>vow_stage_one\<close>; \<open>host_last_dp\<close> is its array \<^verbatim>\<open>last_dp\<close>.
  The snapshot \<^verbatim>\<open>host_dp_arrays\<close> is local to one pass of the loop.
\<close>

record stage_one_vars =
  states :: "State list"
  device_dp_arrays :: "DPArray list"
  dp_map :: chain_table
  host_last_dp :: "HASH_IN list"
  result :: StageOneResult
  batch_count :: nat

datatype 'a control = Continue 'a | Goto_stage_one_end 'a

text \<open>The inner loop of the merge, over the records of the walker \<open>i\<close> (lines 243 to 256).\<close>

fun merge_dps :: "nat \<Rightarrow> DP list \<Rightarrow> stage_one_vars \<Rightarrow> fault + stage_one_vars control" where
  "merge_dps i [] v = Inr (Continue v)"
| "merge_dps i (dp # dps) v =
     (let k = dp_hash dp
      in case dp_map_find (dp_map v) k of
           Inl e \<Rightarrow> Inl e
         | Inr (Some entry) \<Rightarrow>
             Inr (Goto_stage_one_end
                    (v\<lparr>result := (result v)\<lparr>res_x := fst entry, x_steps := snd entry,
                                             res_y := host_last_dp v ! i,
                                             y_steps := dp_steps_since_last_dp dp,
                                             dp_collided := dp_hash dp, found := True\<rparr>\<rparr>))
         | Inr None \<Rightarrow>
             merge_dps i dps
               (v\<lparr>dp_map := dp_map_assign (dp_map v) k
                               (host_last_dp v ! i, dp_steps_since_last_dp dp),
                  host_last_dp := (host_last_dp v)[i := format_input (dp_hash dp)]\<rparr>))"

text \<open>The outer loop \<^verbatim>\<open>for (std::size_t i = 0; i < THREADS; ++i)\<close> of the merge.\<close>

fun merge_workers ::
  "nat list \<Rightarrow> DPArray list \<Rightarrow> stage_one_vars \<Rightarrow> fault + stage_one_vars control" where
  "merge_workers [] host_dp_arrays v = Inr (Continue v)"
| "merge_workers (i # rest) host_dp_arrays v =
     (case merge_dps i (DPArray_elems (host_dp_arrays ! i)) v of
        Inl e \<Rightarrow> Inl e
      | Inr (Goto_stage_one_end v1) \<Rightarrow> Inr (Goto_stage_one_end v1)
      | Inr (Continue v1) \<Rightarrow> merge_workers rest host_dp_arrays v1)"

definition merge_pass ::
  "nat \<Rightarrow> DPArray list \<Rightarrow> stage_one_vars \<Rightarrow> fault + stage_one_vars control" where
  "merge_pass threads host_dp_arrays v = merge_workers [0..<threads] host_dp_arrays v"

text \<open>\<^verbatim>\<open>for (std::size_t i = 0; i < BATCH_SIZE; ++i) states[idx].step();\<close>\<close>

fun steps :: "HASH \<Rightarrow> nat \<Rightarrow> State \<times> DPArray \<Rightarrow> fault + State \<times> DPArray" where
  "steps H 0 w = Inr w"
| "steps H (Suc n) w = (case step H w of Inl e \<Rightarrow> Inl e | Inr w1 \<Rightarrow> steps H n w1)"

text \<open>
  A \<^verbatim>\<open>parallel_for\<close> over \<^verbatim>\<open>sycl::range<1>(THREADS)\<close> runs its body once for every index.
  The work-items are run here one after the other in the order \<open>order\<close>, any permutation of
  the indices; the body for \<open>idx\<close> reads and writes \<^verbatim>\<open>states[idx]\<close> and
  \<^verbatim>\<open>device_dp_arrays[idx]\<close> only.
\<close>

fun parallel_for :: "(nat \<Rightarrow> 'm \<Rightarrow> fault + 'm) \<Rightarrow> nat list \<Rightarrow> 'm \<Rightarrow> fault + 'm" where
  "parallel_for body [] m = Inr m"
| "parallel_for body (idx # order) m =
     (case body idx m of Inl e \<Rightarrow> Inl e | Inr m1 \<Rightarrow> parallel_for body order m1)"

definition initial_kernel ::
  "HASH \<Rightarrow> nat \<Rightarrow> nat \<Rightarrow> State list \<times> DPArray list \<Rightarrow> fault + State list \<times> DPArray list" where
  "initial_kernel H batch idx = (\<lambda>(sts, arrs).
     case steps H batch (init_worker H idx (arrs ! idx)) of
       Inl e \<Rightarrow> Inl e
     | Inr (st, arr) \<Rightarrow> Inr (sts[idx := st], arrs[idx := arr]))"

definition StageOneKernel ::
  "HASH \<Rightarrow> nat \<Rightarrow> nat \<Rightarrow> State list \<times> DPArray list \<Rightarrow> fault + State list \<times> DPArray list" where
  "StageOneKernel H batch idx = (\<lambda>(sts, arrs).
     case steps H batch (sts ! idx, (arrs ! idx)\<lparr>dp_count := 0\<rparr>) of
       Inl e \<Rightarrow> Inl e
     | Inr (st, arr) \<Rightarrow> Inr (sts[idx := st], arrs[idx := arr]))"

text \<open>
  Lines 183 to 215: the allocations, whose contents \<open>mem\<close> are whatever the allocator
  returns, the initial batch, and \<^verbatim>\<open>last_dp[i] = format_input(hash_from_seed(i))\<close> with
  \<^verbatim>\<open>i\<close> a \<^verbatim>\<open>std::size_t\<close>.
\<close>

definition stage_one_start ::
  "HASH \<Rightarrow> nat \<Rightarrow> nat \<Rightarrow> nat list \<Rightarrow> State list \<times> DPArray list \<Rightarrow> fault + stage_one_vars" where
  "stage_one_start H threads batch order mem =
     (case parallel_for (initial_kernel H batch) order mem of
        Inl e \<Rightarrow> Inl e
      | Inr (sts, arrs) \<Rightarrow>
          Inr \<lparr>states = sts, device_dp_arrays = arrs, dp_map = [],
               host_last_dp =
                 map (\<lambda>i. format_input (hash_from_seed H (of_nat i :: 64 word))) [0..<threads],
               result = \<lparr>x_steps = 0, y_steps = 0, total_hash_counts = 0, res_x = [],
                          res_y = [], dp_collided = [], found = False\<rparr>,
               batch_count = 1\<rparr>)"

text \<open>
  One pass of \<^verbatim>\<open>while (!result.found)\<close>, lines 218 to 259: the snapshot of the arrays,
  the total of the hash counts, the next batch, and the merge of the snapshot.
\<close>

definition stage_one_pass ::
  "HASH \<Rightarrow> nat \<Rightarrow> nat \<Rightarrow> nat list \<Rightarrow> stage_one_vars \<Rightarrow> fault + stage_one_vars" where
  "stage_one_pass H threads batch order v =
     (let host_dp_arrays = device_dp_arrays v;
          v1 = v\<lparr>result := (result v)\<lparr>total_hash_counts :=
                    fold (\<lambda>i total. total + hash_count (states v ! i)) [0..<threads] 0\<rparr>\<rparr>
      in case parallel_for (StageOneKernel H batch) order (states v1, device_dp_arrays v1) of
           Inl e \<Rightarrow> Inl e
         | Inr (sts, arrs) \<Rightarrow>
             (case merge_pass threads host_dp_arrays
                     (v1\<lparr>states := sts, device_dp_arrays := arrs\<rparr>) of
                Inl e \<Rightarrow> Inl e
              | Inr (Goto_stage_one_end v2) \<Rightarrow> Inr v2
              | Inr (Continue v2) \<Rightarrow> Inr (v2\<lparr>batch_count := batch_count v2 + 1\<rparr>)))"

text \<open>
  At most \<open>fuel\<close> passes of the loop; \<open>sched j\<close> is the order of the work-items of the
  kernel launched in pass \<open>j\<close>.
\<close>

fun stage_one_loop ::
  "HASH \<Rightarrow> nat \<Rightarrow> nat \<Rightarrow> (nat \<Rightarrow> nat list) \<Rightarrow> nat \<Rightarrow> stage_one_vars \<Rightarrow> fault + stage_one_vars"
  where
  "stage_one_loop H threads batch sched 0 v = Inr v"
| "stage_one_loop H threads batch sched (Suc fuel) v =
     (if found (result v) then Inr v
      else case stage_one_pass H threads batch (sched (batch_count v)) v of
             Inl e \<Rightarrow> Inl e
           | Inr v1 \<Rightarrow> stage_one_loop H threads batch sched fuel v1)"

definition vow_stage_one ::
  "HASH \<Rightarrow> nat \<Rightarrow> nat \<Rightarrow> (nat \<Rightarrow> nat list) \<Rightarrow> State list \<times> DPArray list \<Rightarrow> nat
     \<Rightarrow> fault + stage_one_vars" where
  "vow_stage_one H threads batch sched mem fuel =
     (case stage_one_start H threads batch (sched 0) mem of
        Inl e \<Rightarrow> Inl e
      | Inr v \<Rightarrow> stage_one_loop H threads batch sched fuel v)"


section \<open>Chains\<close>

text \<open>
  The input reached from \<open>start\<close> after \<open>n\<close> iterations (hash, then format), and the
  digest produced by the \<open>n\<close>-th hash evaluation of the chain, the first evaluation being
  the hash of \<open>start\<close> itself.
\<close>

primrec chain_input :: "HASH \<Rightarrow> HASH_IN \<Rightarrow> nat \<Rightarrow> HASH_IN" where
  "chain_input H start 0 = start"
| "chain_input H start (Suc n) = format_input (hash_of H (chain_input H start n))"

definition chain_digest :: "HASH \<Rightarrow> HASH_IN \<Rightarrow> nat \<Rightarrow> HASH_OUT" where
  "chain_digest H start n = hash_of H (chain_input H start (n - 1))"

text \<open>
  What the engine expects of the class \<^verbatim>\<open>HASH\<close>: digests of \<^verbatim>\<open>OUTPUT_SIZE\<close> bytes, at
  least \<open>N\<close>, for the inputs of \<open>HASH_IN_SIZE\<close> bytes that it hashes.
\<close>

definition HASH_ok :: "HASH \<Rightarrow> bool" where
  "HASH_ok H \<longleftrightarrow>
     N \<le> OUTPUT_SIZE H \<and>
     (\<forall>m. length m = HASH_IN_SIZE \<longrightarrow> length (hash_of H m) = OUTPUT_SIZE H)"


section \<open>Test data\<close>

text \<open>
  Inputs of the configured format and their SHA-256 digests. \<open>tv_x\<close> is the formatted seed
  digest of the seed 34266, \<open>tv_d1\<close> its digest, \<open>tv_y\<close> the next input of that chain and
  \<open>tv_d2\<close> its digest, a distinguishable point. \<open>tv_p\<close> has the digest \<open>tv_dp\<close>, whose
  formatted input is \<open>tv_a\<close>; the digests \<open>tv_da\<close> of \<open>tv_a\<close> and \<open>tv_db\<close> of \<open>tv_b\<close> agree on
  their first eight bytes and differ at the ninth.
\<close>

definition tv_x :: HASH_IN where
  "tv_x =
     [0x00, 0x11, 0x22, 0x33, 0xda, 0x85, 0x00, 0x00, 0x00, 0x00, 0x00, 0x00, 0x33,
      0x22, 0x11, 0x00]"

definition tv_d1 :: HASH_OUT where
  "tv_d1 =
     [0x7e, 0xa6, 0x75, 0x75, 0x89, 0x7f, 0x2c, 0x7f, 0x3d, 0x7c, 0x21, 0x79, 0xf1,
      0x05, 0x0b, 0x10, 0xcc, 0xca, 0x4b, 0xa5, 0x00, 0xea, 0x2e, 0x70, 0xf9, 0x8d,
      0x7e, 0x6f, 0x22, 0x94, 0x90, 0xec]"

definition tv_y :: HASH_IN where
  "tv_y =
     [0x00, 0x11, 0x22, 0x33, 0x7e, 0xa6, 0x75, 0x75, 0x89, 0x7f, 0x2c, 0x7f, 0x33,
      0x22, 0x11, 0x00]"

definition tv_d2 :: HASH_OUT where
  "tv_d2 =
     [0x00, 0x00, 0x5a, 0x2b, 0x07, 0xf1, 0x8a, 0x86, 0xc3, 0x3c, 0x5c, 0x4f, 0x30,
      0xcd, 0x5e, 0xd5, 0xef, 0xa5, 0x88, 0x20, 0xe7, 0xf6, 0x76, 0xa7, 0xc8, 0x30,
      0xfe, 0x62, 0xf7, 0x8d, 0x9d, 0x64]"

definition tv_p :: HASH_IN where
  "tv_p =
     [0x00, 0x11, 0x22, 0x33, 0x74, 0x32, 0x89, 0x54, 0x4c, 0x5f, 0x02, 0x67, 0x33,
      0x22, 0x11, 0x00]"

definition tv_dp :: HASH_OUT where
  "tv_dp =
     [0x36, 0x2d, 0xbd, 0xf0, 0x0a, 0xf2, 0x79, 0x0f, 0x93, 0x09, 0xb2, 0x41, 0xf2,
      0x3a, 0xb4, 0xae, 0x8e, 0x1f, 0xe7, 0xfd, 0x79, 0x05, 0xf2, 0xde, 0x34, 0xed,
      0x4f, 0x39, 0x72, 0xaa, 0x29, 0x17]"

definition tv_a :: HASH_IN where
  "tv_a =
     [0x00, 0x11, 0x22, 0x33, 0x36, 0x2d, 0xbd, 0xf0, 0x0a, 0xf2, 0x79, 0x0f, 0x33,
      0x22, 0x11, 0x00]"

definition tv_da :: HASH_OUT where
  "tv_da =
     [0x93, 0x63, 0x50, 0xbf, 0xc8, 0x63, 0x52, 0xaa, 0xa8, 0x80, 0x10, 0xdf, 0xfd,
      0x2e, 0x69, 0x7e, 0xd8, 0xd8, 0x3c, 0x8b, 0x38, 0xcc, 0x45, 0x32, 0x2c, 0xd0,
      0x21, 0xae, 0x67, 0xad, 0xbc, 0x54]"

definition tv_b :: HASH_IN where
  "tv_b =
     [0x00, 0x11, 0x22, 0x33, 0x1e, 0x57, 0x7d, 0x95, 0x53, 0x6a, 0x88, 0xfa, 0x33,
      0x22, 0x11, 0x00]"

definition tv_db :: HASH_OUT where
  "tv_db =
     [0x93, 0x63, 0x50, 0xbf, 0xc8, 0x63, 0x52, 0xaa, 0x54, 0x45, 0x21, 0x3c, 0x70,
      0x5b, 0xfa, 0xa2, 0xe5, 0xf6, 0x46, 0xa4, 0xe4, 0x1e, 0x07, 0x4f, 0xcb, 0x12,
      0x49, 0x25, 0x2e, 0x55, 0xe7, 0xfc]"

text \<open>
  An array of a walker in the state the allocator may leave it in, with any count; the
  state of a walker constructed from the seed 34266, and a walker standing at \<open>tv_p\<close>.
\<close>

definition tv_arr :: "nat \<Rightarrow> DPArray" where
  "tv_arr n = \<lparr>data = replicate DP_ARRAY_LEN \<lparr>dp_in = [], dp_hash = [], dp_steps_since_last_dp = 0\<rparr>,
              dp_count = n\<rparr>"

definition tv_st1 :: State where
  "tv_st1 = \<lparr>hash_count = 1, steps_since_last_dp = 1, last_dp = tv_x, hash = tv_d1\<rparr>"

definition tv_st2 :: State where
  "tv_st2 = \<lparr>hash_count = 1, steps_since_last_dp = 1, last_dp = tv_p, hash = tv_dp\<rparr>"

text \<open>Results of Stage 1 with the form of the chains of the test vectors.\<close>

definition tv_r2 :: StageOneResult where
  "tv_r2 = \<lparr>x_steps = 2, y_steps = 1, total_hash_counts = 0, res_x = tv_p, res_y = tv_b,
            dp_collided = tv_da, found = True\<rparr>"

definition tv_r3 :: StageOneResult where
  "tv_r3 = \<lparr>x_steps = 1, y_steps = 1, total_hash_counts = 0, res_x = tv_a, res_y = tv_b,
            dp_collided = tv_da, found = True\<rparr>"

text \<open>
  A hash class with many distinguishable points, for running Stage 1 by evaluation. With
  \<open>t\<close> the sum of 2 and of the bytes 4 and 6 of the input, which are the bytes 0 and 2 of
  the previous digest, the digest is \<open>t\<close> followed by zeros when bit 1 of \<open>t\<close> is set, and
  otherwise the distinguishable point that holds \<open>t\<close> without its bit 0 at the byte 2:
  the inputs with \<open>t = 4\<close> and \<open>t = 5\<close> collide.
\<close>

text \<open>
  A merge pass whose table holds the distinguishable point \<open>tv_d2\<close>, reached from \<open>tv_x\<close> by
  two evaluations, and whose only record has the digest \<open>tv_d2b\<close>: the bytes of \<open>tv_d2\<close>
  with \<open>0xc4\<close> for \<open>0xc3\<close> at the byte 8.
\<close>

definition tv_d2b :: HASH_OUT where
  "tv_d2b =
     [0x00, 0x00, 0x5a, 0x2b, 0x07, 0xf1, 0x8a, 0x86, 0xc4, 0x3c, 0x5c, 0x4f, 0x30,
      0xcd, 0x5e, 0xd5, 0xef, 0xa5, 0x88, 0x20, 0xe7, 0xf6, 0x76, 0xa7, 0xc8, 0x30,
      0xfe, 0x62, 0xf7, 0x8d, 0x9d, 0x64]"

definition tv_merge_arr :: DPArray where
  "tv_merge_arr =
     \<lparr>data = \<lparr>dp_in = tv_p, dp_hash = tv_d2b, dp_steps_since_last_dp = 3\<rparr>
               # replicate 99 \<lparr>dp_in = [], dp_hash = [], dp_steps_since_last_dp = 0\<rparr>,
      dp_count = 1\<rparr>"

definition tv_merge_vars :: stage_one_vars where
  "tv_merge_vars =
     \<lparr>states = [], device_dp_arrays = [], dp_map = [(tv_d2, tv_x, 2)], host_last_dp = [tv_a],
      result = \<lparr>x_steps = 0, y_steps = 0, total_hash_counts = 7, res_x = [], res_y = [],
                 dp_collided = [], found = False\<rparr>,
      batch_count = 2\<rparr>"

definition toy_hash :: HASH where
  "toy_hash = \<lparr>OUTPUT_SIZE = 32,
               hash_of = (\<lambda>m. let t = m ! 4 + m ! 6 + 2
                               in if t AND 2 = 0 then [0, 0, t AND 0xFE] @ replicate 29 0
                                  else t # replicate 31 0)\<rparr>"

definition toy_mem :: "nat \<Rightarrow> State list \<times> DPArray list" where
  "toy_mem n = (replicate 2 \<lparr>hash_count = n, steps_since_last_dp = n, last_dp = [], hash = []\<rparr>,
               replicate 2 (tv_arr n))"

definition toy_in :: "byte \<Rightarrow> byte \<Rightarrow> HASH_IN" where
  "toy_in a b = [0x00, 0x11, 0x22, 0x33, a, 0, b, 0, 0, 0, 0, 0, 0x33, 0x22, 0x11, 0x00]"

definition toy_out :: "byte \<Rightarrow> byte \<Rightarrow> HASH_OUT" where
  "toy_out a b = [a, 0, b] @ replicate 29 0"

definition toy_result :: StageOneResult where
  "toy_result = \<lparr>x_steps = 2, y_steps = 2, total_hash_counts = 10, res_x = toy_in 0 0,
                  res_y = toy_in 1 0, dp_collided = toy_out 0 4, found = True\<rparr>"

definition toy_table :: chain_table where
  "toy_table = [(toy_out 0 4, toy_in 0 0, 2), (toy_out 0 8, toy_in 0 4, 2)]"


section \<open>Evaluation of SHA256\<close>

text \<open>
  The message schedule and the rounds in a form that the simplifier evaluates on
  numerals. \<open>norm32\<close> is the identity on words; around a sum of numerals it is rewritten
  to the residue of the sum modulo \<open>2\<^sup>3\<^sup>2\<close>, so that no numeral grows. The schedule keeps
  its words in reverse order, so that the four words it reads are near the head of the
  list, and the rounds pair each constant with its schedule word.
\<close>

text \<open>
  Two more hash classes of the same kind. \<open>toy_count\<close> adds 1 instead of 2 and returns a
  distinguishable point when the two low bits of the sum are clear: the chain from the
  seed 0 runs through the formatted seed 1. \<open>toy_split\<close> is \<open>toy_hash\<close> with the bit 0 of
  the sum kept at the byte 8 of a distinguishable point: the two colliding inputs give
  digests that agree on the first \<open>N\<close> bytes and differ at the byte 8.
\<close>

definition toy_count :: HASH where
  "toy_count = \<lparr>OUTPUT_SIZE = 32,
                hash_of = (\<lambda>m. let t = m ! 4 + m ! 6 + 1
                                in if t AND 3 = 0 then [0, 0, t] @ replicate 29 0
                                   else t # replicate 31 0)\<rparr>"

definition count_result :: StageOneResult where
  "count_result = \<lparr>x_steps = 4, y_steps = 3, total_hash_counts = 10, res_x = toy_in 0 0,
                    res_y = toy_in 1 0, dp_collided = toy_out 0 4, found = True\<rparr>"

definition toy_split :: HASH where
  "toy_split = \<lparr>OUTPUT_SIZE = 32,
                hash_of = (\<lambda>m. let t = m ! 4 + m ! 6 + 2
                                in if t AND 2 = 0
                                   then [0, 0, t AND 0xFE, 0, 0, 0, 0, 0, t AND 1] @ replicate 23 0
                                   else t # replicate 31 0)\<rparr>"

definition split_out :: "byte \<Rightarrow> byte \<Rightarrow> HASH_OUT" where
  "split_out b c = [0, 0, b, 0, 0, 0, 0, 0, c] @ replicate 23 0"

definition norm32 :: "32 word \<Rightarrow> 32 word" where
  "norm32 x = x"

lemma mask32_int: "(k AND 4294967295 :: int) = take_bit 32 k"
  by (simp add: take_bit_eq_mask mask_eq_exp_minus_1)

lemma woi_mask: "(word_of_int (k AND 4294967295) :: 32 word) = word_of_int k"
  unfolding mask32_int by transfer simp

lemma norm32_numeral: "norm32 (numeral k) = word_of_int (numeral k AND 4294967295)"
  by (simp only: woi_mask norm32_def word_of_int_numeral)

lemma norm32_01: "norm32 0 = 0" "norm32 1 = 1"
  by (simp_all add: norm32_def)

lemma rotate_right_woi:
  "rotate_right (word_of_int k :: 32 word) n =
     word_of_int (drop_bit n (k AND 4294967295) OR (push_bit (32 - n) k AND 4294967295))"
  unfolding rotate_right_def mask32_int
  by (rule bit_word_eqI) (auto simp add: bit_simps)

lemma rotate_right_numeral:
  "rotate_right (numeral k :: 32 word) n =
     word_of_int (drop_bit n (numeral k AND 4294967295) OR (push_bit (32 - n) (numeral k) AND 4294967295))"
  using rotate_right_woi [of "numeral k" n] by simp

lemma rotate_right_01:
  "rotate_right (0 :: 32 word) n = 0"
  "rotate_right (1 :: 32 word) n = word_of_int (drop_bit n 1 OR (push_bit (32 - n) 1 AND 4294967295))"
  using rotate_right_woi [of 0 n] rotate_right_woi [of 1 n] by simp_all

definition sched_word :: "32 word \<Rightarrow> 32 word \<Rightarrow> 32 word \<Rightarrow> 32 word \<Rightarrow> 32 word" where
  "sched_word w2 w7 w15 w16 = norm32 (sigma_1_256 w2 + w7 + sigma_0_256 w15 + w16)"

definition sched_step :: "32 word list \<Rightarrow> 32 word list" where
  "sched_step r = sched_word (r ! 1) (r ! 6) (r ! 14) (r ! 15) # r"

primrec sched_rev :: "nat \<Rightarrow> 32 word list \<Rightarrow> 32 word list" where
  "sched_rev 0 r = r"
| "sched_rev (Suc n) r = sched_rev n (sched_step r)"

lemma sched_rev_length: "length (sched_rev n r) = n + length r"
  by (induction n arbitrary: r) (simp_all add: sched_step_def)

lemma sched_rev_Suc_end:
  "sched_rev (Suc n) r = sched_step (sched_rev n r)"
  by (induction n arbitrary: r) simp_all

lemma schedule_prefix:
  assumes "length mb = 16" "k \<le> 48"
  shows "fold (\<lambda>i w. w[i := sigma_1_256 (w ! (i - 2)) + w ! (i - 7)
                         + sigma_0_256 (w ! (i - 15)) + w ! (i - 16)])
          [16..<16 + k] (mb @ replicate 48 0)
         = rev (sched_rev k (rev mb)) @ replicate (48 - k) 0"
  using assms(2)
proof (induction k)
  case 0
  then show ?case by simp
next
  case (Suc k)
  define r where "r = sched_rev k (rev mb)"
  have lr: "length r = 16 + k" by (simp add: r_def sched_rev_length assms(1))
  have rep: "replicate (48 - k) (0::32 word) = 0 # replicate (48 - Suc k) 0"
    using Suc.prems by (cases "48 - k") (simp_all add: Suc_diff_le)
  have nth_r: "(rev r @ replicate (48 - k) 0) ! (16 + k - Suc j) = r ! j" if "j < 16 + k" for j
  proof -
    have lt: "16 + k - Suc j < length (rev r)" using lr that by simp
    have "(rev r @ replicate (48 - k) 0) ! (16 + k - Suc j) = rev r ! (16 + k - Suc j)"
      using lt by (simp only: nth_append if_True)
    also have "\<dots> = r ! (length r - Suc (16 + k - Suc j))"
      using lt by (simp only: rev_nth length_rev)
    also have "length r - Suc (16 + k - Suc j) = j" using lr that by simp
    finally show ?thesis .
  qed
  have IH: "fold (\<lambda>i w. w[i := sigma_1_256 (w ! (i - 2)) + w ! (i - 7)
                         + sigma_0_256 (w ! (i - 15)) + w ! (i - 16)])
          [16..<16 + k] (mb @ replicate 48 0) = rev r @ replicate (48 - k) 0"
    using Suc by (simp add: r_def)
  define w where "w = rev r @ replicate (48 - k) 0"
  have e2: "w ! (16 + k - 2) = r ! 1" using nth_r [of 1] by (simp add: w_def)
  have e7: "w ! (16 + k - 7) = r ! 6" using nth_r [of 6] by (simp add: w_def)
  have e15: "w ! (16 + k - 15) = r ! 14" using nth_r [of 14] by (simp add: w_def)
  have e16: "w ! (16 + k - 16) = r ! 15" using nth_r [of 15] by (simp add: w_def)
  have upd: "w[16 + k := v] = rev (v # r) @ replicate (48 - Suc k) 0" for v
    unfolding w_def using lr by (subst rep) (simp add: list_update_append)
  have step: "w[16 + k := sigma_1_256 (w ! (16 + k - 2)) + w ! (16 + k - 7)
                 + sigma_0_256 (w ! (16 + k - 15)) + w ! (16 + k - 16)]
        = rev (sched_step r) @ replicate (48 - Suc k) 0"
    unfolding e2 e7 e15 e16 upd by (simp add: sched_step_def sched_word_def norm32_def)
  have upt: "[16..<16 + Suc k] = [16..<16 + k] @ [16 + k]"
    using upt_Suc_append [of 16 "16 + k"] by simp
  show ?case
    unfolding upt fold_append comp_apply IH sched_rev_Suc_end
    using step by (simp add: r_def w_def)
qed

lemma message_schedule_eval:
  assumes "length mb = 16"
  shows "message_schedule mb = rev (sched_rev 48 (rev mb))"
proof -
  have e: "(16::nat) + 48 = 64" by simp
  have r: "64 - length mb = 48" using assms by simp
  have "fold (\<lambda>i w. w[i := sigma_1_256 (w ! (i - 2)) + w ! (i - 7)
                         + sigma_0_256 (w ! (i - 15)) + w ! (i - 16)])
          [16..<16 + 48] (mb @ replicate 48 0)
         = rev (sched_rev 48 (rev mb)) @ replicate (48 - 48) 0"
    by (rule schedule_prefix [OF assms order_refl])
  then show ?thesis
    unfolding message_schedule_def r by (simp only: e diff_self_eq_0 replicate_0 append_Nil2)
qed


definition round_kw :: "32 word \<Rightarrow> 32 word \<Rightarrow> sha_vars \<Rightarrow> sha_vars" where
  "round_kw k wi = (\<lambda>(a, b, c, d, e, f, g, h).
     let t1 = h + big_sigma_1_256 e + SHA_CH e f g + k + wi;
         t2 = big_sigma_0_256 a + SHA_MAJ a b c
     in (norm32 (t1 + t2), a, b, c, norm32 (d + t1), e, f, g))"

lemma sha2_round_kw: "sha2_round w i = round_kw (ROUND_CONSTANTS_256 ! i) (w ! i)"
  by (simp add: sha2_round_def round_kw_def norm32_def fun_eq_iff)

lemma rounds_eval:
  assumes "length w = 64"
  shows "fold (sha2_round w) [0..<64] = fold (\<lambda>(k, wi). round_kw k wi) (zip ROUND_CONSTANTS_256 w)"
proof -
  have len: "length ROUND_CONSTANTS_256 = 64" by (simp add: ROUND_CONSTANTS_256_def)
  have "map (\<lambda>i. (ROUND_CONSTANTS_256 ! i, w ! i)) [0..<64] = zip ROUND_CONSTANTS_256 w"
    by (rule nth_equalityI) (simp_all add: len assms)
  moreover have "sha2_round w = (\<lambda>(k, wi). round_kw k wi) \<circ> (\<lambda>i. (ROUND_CONSTANTS_256 ! i, w ! i))"
    by (simp add: sha2_round_kw fun_eq_iff)
  ultimately show ?thesis by (simp add: fold_map [symmetric] del: upt_rec_numeral)
qed

lemma sha2_compression_eval:
  assumes "length mb = 16"
  shows "sha2_compression hv mb =
     (case fold (\<lambda>(k, wi). round_kw k wi) (zip ROUND_CONSTANTS_256 (rev (sched_rev 48 (rev mb))))
                (hv ! 0, hv ! 1, hv ! 2, hv ! 3, hv ! 4, hv ! 5, hv ! 6, hv ! 7) of
           (a, b, c, d, e, f, g, h) \<Rightarrow>
             [hv ! 0 + a, hv ! 1 + b, hv ! 2 + c, hv ! 3 + d,
              hv ! 4 + e, hv ! 5 + f, hv ! 6 + g, hv ! 7 + h])"
proof -
  have "length (rev (sched_rev 48 (rev mb))) = 64"
    by (simp add: sched_rev_length assms)
  then show ?thesis
    unfolding sha2_compression_def message_schedule_eval [OF assms] Let_def
    by (simp only: rounds_eval)
qed

lemma sched_step_eval:
  "sched_step (a1 # a2 # a3 # a4 # a5 # a6 # a7 # a8 # a9 # a10 # a11 # a12 # a13 # a14 # a15 # a16 # r)
     = sched_word a2 a7 a15 a16
         # a1 # a2 # a3 # a4 # a5 # a6 # a7 # a8 # a9 # a10 # a11 # a12 # a13 # a14 # a15 # a16 # r"
  by (simp add: sched_step_def)

lemma sched_rev_numeral: "sched_rev (numeral k) r = sched_rev (pred_numeral k) (sched_step r)"
  by (simp add: numeral_eq_Suc)

lemma round_kw_eval:
  "round_kw k wi (a, b, c, d, e, f, g, h) =
     (let t1 = h + big_sigma_1_256 e + SHA_CH e f g + k + wi;
         t2 = big_sigma_0_256 a + SHA_MAJ a b c
     in (norm32 (t1 + t2), a, b, c, norm32 (d + t1), e, f, g))"
  by (simp add: round_kw_def)

lemma replicate_numeral: "replicate (numeral k) x = x # replicate (pred_numeral k) x"
  by (simp add: numeral_eq_Suc)

lemma upt_0_4: "[0..<4] = [0, 1, 2, 3]"
  by (simp add: upt_rec)
lemma upt_0_8: "[0..<8] = [0, 1, 2, 3, 4, 5, 6, 7]"
  by (simp add: upt_rec)
lemma upt_0_16: "[0..<16] = [0, 1, 2, 3, 4, 5, 6, 7, 8, 9, 10, 11, 12, 13, 14, 15]"
  by (simp add: upt_rec)

text \<open>
  A message of 1 to 55 bytes leaves \<^verbatim>\<open>update\<close> at once and is padded into one block:
  its digest is one application of the compression function.
\<close>

lemma length_blocks_to_bytes_64: "length (blocks_to_bytes [w :: 64 word]) = 8"
  by (simp add: blocks_to_bytes_def)

lemma length_sha_pad_end: "len < 56 \<Longrightarrow> len + length (sha_pad_end len) = 64"
proof -
  assume a: "len < 56"
  have "CEIL_DIV (9 + len) 64 = 1"
    using a by (simp add: CEIL_DIV_def)
  then show ?thesis
    using a by (simp add: sha_pad_end_def length_blocks_to_bytes_64 Let_def)
qed

lemma sha256_run_short:
  assumes "0 < length m" "length m < 56"
  shows "sha256_run m =
     Inr (take 32 (blocks_to_bytes (sha2_compression INIT_HASH_VAL_256
            (message_to_blocks 16 (m @ sha_pad_end (length m))))))"
proof -
  define s1 where "s1 = sha2_new\<lparr>tmp_message := copy_to m (tmp_message sha2_new) 0,
                                 consumed_len := length m\<rparr>"
  have upd: "sha2_update m sha2_new = Inr s1"
    using assms
    by (simp add: sha2_update_def Let_def sha2_update_loop.simps [of m "length m"] s1_def sha2_new_def)
  have tk: "take (length m) (tmp_message s1) = m"
    using assms by (simp add: s1_def copy_to_def sha2_new_def)
  have "sha2_digest s1 = Inr (take 32 (blocks_to_bytes (sha2_compression INIT_HASH_VAL_256
            (message_to_blocks 16 (m @ sha_pad_end (length m))))))"
    using assms length_sha_pad_end [of "length m"] tk
    by (simp add: sha2_digest_def Let_def sha2_update_block_def s1_def sha2_new_def)
  then show ?thesis by (simp add: sha256_run_def upd)
qed

lemma hash_of_SHA256_short:
  "0 < length m \<Longrightarrow> length m < 56 \<Longrightarrow>
   hash_of SHA256 m = take 32 (blocks_to_bytes (sha2_compression INIT_HASH_VAL_256
            (message_to_blocks 16 (m @ sha_pad_end (length m)))))"
  by (simp add: SHA256_def sha256_run_short)

lemma length_sha2_compression: "length (sha2_compression hv mb) = 8"
  apply (simp only: sha2_compression_def Let_def case_prod_beta)
  apply (simp only: length_Cons list.size(3))
  done

lemma length_blocks_to_bytes_32: "length (blocks_to_bytes (ws :: 32 word list)) = 4 * length ws"
  by (induction ws) (simp_all add: blocks_to_bytes_def)

lemma length_hash_of_SHA256:
  "0 < length m \<Longrightarrow> length m < 56 \<Longrightarrow> length (hash_of SHA256 m) = 32"
  by (simp add: hash_of_SHA256_short length_blocks_to_bytes_32 length_sha2_compression)

lemma HASH_ok_SHA256: "HASH_ok SHA256"
  unfolding HASH_ok_def
proof (intro conjI allI impI)
  show "N \<le> OUTPUT_SIZE SHA256" by (simp add: N_def SHA256_def)
next
  fix m :: "byte list"
  assume "length m = HASH_IN_SIZE"
  then have "length m = 16" by (simp add: HASH_IN_SIZE_def prefix_def suffix_def N_def)
  then show "length (hash_of SHA256 m) = OUTPUT_SIZE SHA256"
    using length_hash_of_SHA256 [of m] by (simp add: SHA256_def)
qed

lemmas sha_eval = norm32_numeral norm32_01 rotate_right_numeral rotate_right_01
  sched_word_def sched_step_eval sched_rev_numeral round_kw_eval sha2_compression_eval
  replicate_numeral upt_0_4 upt_0_8 upt_0_16
  sigma_0_256_def sigma_1_256_def big_sigma_0_256_def big_sigma_1_256_def SHA_CH_def SHA_MAJ_def
  ROUND_CONSTANTS_256_def INIT_HASH_VAL_256_def message_to_blocks_def blocks_to_bytes_def
  sha_pad_end_def CEIL_DIV_def hash_of_SHA256_short

text \<open>The digests of the test vectors.\<close>

lemma SHA256_tv_x: "hash_of SHA256 tv_x = tv_d1"
  unfolding tv_x_def tv_d1_def by (simp add: sha_eval)

lemma SHA256_tv_y: "hash_of SHA256 tv_y = tv_d2"
  unfolding tv_y_def tv_d2_def by (simp add: sha_eval)

lemma SHA256_tv_p: "hash_of SHA256 tv_p = tv_dp"
  unfolding tv_p_def tv_dp_def by (simp add: sha_eval)

lemma SHA256_tv_a: "hash_of SHA256 tv_a = tv_da"
  unfolding tv_a_def tv_da_def by (simp add: sha_eval)

lemma SHA256_tv_b: "hash_of SHA256 tv_b = tv_db"
  unfolding tv_b_def tv_db_def by (simp add: sha_eval)

section \<open>Properties of the formatter and the walker\<close>

lemma length_copy_to:
  "pos + length src \<le> length dst \<Longrightarrow> length (copy_to src dst pos) = length dst"
  by (simp add: copy_to_def)

lemma HASH_IN_SIZE_eq: "HASH_IN_SIZE = 16"
  by (simp add: HASH_IN_SIZE_def prefix_def suffix_def N_def)

lemma format_input_into_eq:
  assumes "N \<le> length h" "length input = HASH_IN_SIZE"
  shows "format_input_into input h = prefix @ take N h @ suffix"
  using assms
  by (simp add: format_input_into_def copy_to_def HASH_IN_SIZE_def Let_def)

text \<open>
  Claim C10. For every digest \<open>h\<close> (of any size \<open>D \<ge> N\<close>) and whatever the initial
  contents of the local buffer, \<^verbatim>\<open>format_input\<close> returns the prefix, then the first \<open>N\<close>
  bytes of \<open>h\<close> unchanged, then the suffix: a buffer of \<open>|P| + N + |S|\<close> bytes.
\<close>

theorem format_input_layout:
  assumes "N \<le> length h" and "length input = HASH_IN_SIZE"
  shows "format_input_into input h = prefix @ take N h @ suffix
         \<and> length (format_input_into input h) = length prefix + N + length suffix"
  using assms format_input_into_eq [OF assms] by simp

text \<open>The layout at the digest \<open>tv_d1\<close>, the buffer holding \<open>0xAA\<close> throughout before the call.\<close>

theorem format_input_layout_witness:
  "N \<le> length tv_d1 \<and> length (replicate 16 (0xAA :: byte)) = HASH_IN_SIZE
   \<and> format_input_into (replicate 16 0xAA) tv_d1 = tv_y
   \<and> length (format_input_into (replicate 16 0xAA) tv_d1) = 16"
  using format_input_layout [of tv_d1 "replicate 16 0xAA"]
  by (simp add: N_def tv_d1_def tv_y_def prefix_def suffix_def HASH_IN_SIZE_eq)

lemma format_input_eq: "N \<le> length h \<Longrightarrow> format_input h = prefix @ take N h @ suffix"
  by (simp add: format_input_def format_input_into_eq)

lemma length_format_input [simp]: "length (format_input h) = HASH_IN_SIZE"
  by (simp add: format_input_def format_input_into_def copy_to_def HASH_IN_SIZE_def Let_def)

lemma format_input_take: "format_input (take N h) = format_input h"
  by (simp add: format_input_def format_input_into_def copy_to_def HASH_IN_SIZE_def Let_def)

lemma format_input_cong: "take N a = take N b \<Longrightarrow> format_input a = format_input b"
  by (metis format_input_take)

lemma format_input_inj:
  "N \<le> length a \<Longrightarrow> N \<le> length b \<Longrightarrow> format_input a = format_input b \<Longrightarrow> take N a = take N b"
  by (simp add: format_input_eq)

lemma DPArray_append_room:
  assumes "dp_count arr < DP_ARRAY_LEN" "length (data arr) = DP_ARRAY_LEN"
  shows "\<exists>arr'. DPArray_append arr i h s = Inr arr'
           \<and> DPArray_elems arr' = DPArray_elems arr @ [\<lparr>dp_in = i, dp_hash = h, dp_steps_since_last_dp = s\<rparr>]
           \<and> dp_count arr' = dp_count arr + 1 \<and> length (data arr') = DP_ARRAY_LEN"
  using assms
  by (simp add: DPArray_append_def DPArray_elems_def take_Suc_conv_app_nth)

lemma is_dp_iff:
  "K \<le> OUTPUT_SIZE H \<Longrightarrow> is_dp H st \<longleftrightarrow> take K (hash st) = replicate K 0"
  by (simp add: is_dp_def ZERO_HASH_def)

text \<open>
  Claim C5. \<^verbatim>\<open>step\<close> hashes \<open>format_input\<close> of the current digest, stores the new digest
  and increments both counters. When the first \<open>K\<close> bytes of the new digest are not all
  zero, nothing else changes. When they are zero (and the array has room, which is the
  subject of claim C8), the record (input, new digest, incremented step count) is
  appended to the walker's array, \<^verbatim>\<open>last_dp\<close> becomes the input and
  \<^verbatim>\<open>steps_since_last_dp\<close> is reset to 0.
\<close>

theorem step_spec:
  assumes "K \<le> OUTPUT_SIZE H"
  shows "let input = format_input (hash st);
             d = hash_of H input;
             st1 = st\<lparr>hash := d, hash_count := hash_count st + 1\<rparr>
         in (take K d \<noteq> replicate K 0 \<longrightarrow>
               step H (st, arr) =
                 Inr (st1\<lparr>steps_since_last_dp := steps_since_last_dp st + 1\<rparr>, arr))
          \<and> (take K d = replicate K 0 \<and> dp_count arr < DP_ARRAY_LEN
                \<and> length (data arr) = DP_ARRAY_LEN \<longrightarrow>
               (\<exists>arr'. step H (st, arr) =
                         Inr (st1\<lparr>steps_since_last_dp := 0, last_dp := input\<rparr>, arr')
                  \<and> DPArray_elems arr' =
                      DPArray_elems arr @
                        [\<lparr>dp_in = input, dp_hash = d,
                          dp_steps_since_last_dp = steps_since_last_dp st + 1\<rparr>]
                  \<and> dp_count arr' = dp_count arr + 1))"
proof -
  define input where "input = format_input (hash st)"
  define d where "d = hash_of H input"
  have nodp: "step H (st, arr) =
       Inr (st\<lparr>hash := d, hash_count := hash_count st + 1,
               steps_since_last_dp := steps_since_last_dp st + 1\<rparr>, arr)"
    if "take K d \<noteq> replicate K 0"
    using that assms
    by (simp add: step_def Let_def is_dp_iff input_def d_def)
  have dp: "\<exists>arr'. step H (st, arr) =
               Inr (st\<lparr>hash := d, hash_count := hash_count st + 1,
                       steps_since_last_dp := 0, last_dp := input\<rparr>, arr')
            \<and> DPArray_elems arr' =
                  DPArray_elems arr @
                    [\<lparr>dp_in = input, dp_hash = d,
                      dp_steps_since_last_dp = steps_since_last_dp st + 1\<rparr>]
            \<and> dp_count arr' = dp_count arr + 1"
    if dpz: "take K d = replicate K 0" and room: "dp_count arr < DP_ARRAY_LEN"
      and len: "length (data arr) = DP_ARRAY_LEN"
  proof -
    obtain arr' where a: "DPArray_append arr input d (steps_since_last_dp st + 1) = Inr arr'"
      and e: "DPArray_elems arr' = DPArray_elems arr @
                [\<lparr>dp_in = input, dp_hash = d, dp_steps_since_last_dp = steps_since_last_dp st + 1\<rparr>]"
      and c: "dp_count arr' = dp_count arr + 1"
      using DPArray_append_room [OF room len] by blast
    have "step H (st, arr) =
            Inr (st\<lparr>hash := d, hash_count := hash_count st + 1,
                    steps_since_last_dp := 0, last_dp := input\<rparr>, arr')"
      using dpz assms a
      by (simp add: step_def Let_def is_dp_iff input_def [symmetric] d_def [symmetric])
    then show ?thesis using e c by blast
  qed
  show ?thesis
    unfolding Let_def input_def [symmetric] d_def [symmetric]
    using nodp dp by blast
qed

text \<open>
  Two steps under SHA256: the walker at \<open>tv_p\<close> steps to a digest that is no
  distinguishable point; the walker of the seed 34266 steps to the distinguishable point \<open>tv_d2\<close>.
\<close>

lemma replicate_K: "replicate K (0 :: byte) = [0, 0]"
  by (simp add: K_def numeral_2_eq_2)

lemma format_tv_d1: "format_input tv_d1 = tv_y"
  by (simp add: format_input_eq N_def tv_d1_def tv_y_def prefix_def suffix_def)

lemma format_tv_dp: "format_input tv_dp = tv_a"
  by (simp add: format_input_eq N_def tv_dp_def tv_a_def prefix_def suffix_def)

theorem step_spec_witness:
  "K \<le> OUTPUT_SIZE SHA256
   \<and> step SHA256 (tv_st2, tv_arr 0) =
       Inr (\<lparr>hash_count = 2, steps_since_last_dp = 2, last_dp = tv_p, hash = tv_da\<rparr>, tv_arr 0)
   \<and> (\<exists>arr'. step SHA256 (tv_st1, tv_arr 0) =
                Inr (\<lparr>hash_count = 2, steps_since_last_dp = 0, last_dp = tv_y, hash = tv_d2\<rparr>, arr')
          \<and> DPArray_elems arr' = [\<lparr>dp_in = tv_y, dp_hash = tv_d2, dp_steps_since_last_dp = 2\<rparr>]
          \<and> dp_count arr' = 1)"
proof -
  have k: "K \<le> OUTPUT_SIZE SHA256" by (simp add: K_def SHA256_def)
  have a: "take K tv_da \<noteq> replicate K 0" by (simp add: replicate_K) (simp add: K_def tv_da_def)
  have b: "take K tv_d2 = replicate K 0" by (simp add: replicate_K) (simp add: K_def tv_d2_def)
  show ?thesis
    using k a b step_spec [OF k, of tv_st2 "tv_arr 0"] step_spec [OF k, of tv_st1 "tv_arr 0"]
    by (simp add: Let_def tv_st1_def tv_st2_def format_tv_d1 format_tv_dp SHA256_tv_a SHA256_tv_y
          tv_arr_def DP_ARRAY_LEN_def DPArray_elems_def numeral_2_eq_2)
qed

lemma length_store_le [simp]: "length (store_le (w :: 'a::len word)) = LENGTH('a) div 8"
  by (simp add: store_le_def)

lemma hash_from_seed_eq:
  "LENGTH('a) div 8 \<le> OUTPUT_SIZE H \<Longrightarrow>
   hash_from_seed H (seed :: 'a::len word)
     = store_le seed @ replicate (OUTPUT_SIZE H - LENGTH('a) div 8) 0"
  by (simp add: hash_from_seed_def copy_to_def)

lemma fixed_point_map_format:
  "N \<le> length h \<Longrightarrow> hash_of H (format_input h) = fixed_point_map H h"
  by (simp add: fixed_point_map_def format_input_eq)

text \<open>
  Claim C6. The constructor of \<^verbatim>\<open>State\<close> builds the seed digest (the four bytes of the
  seed, least significant first, then zeros), hashes its formatted input once, and leaves
  \<^verbatim>\<open>hash_count = 1\<close>, \<^verbatim>\<open>steps_since_last_dp = 1\<close> and \<^verbatim>\<open>last_dp\<close> the formatted seed
  digest. Neither the seed digest nor the first digest is tested for being a
  distinguishable point: after the initialisation of a walker its array is empty.
\<close>

theorem State_init_spec:
  fixes seed :: "32 word"
  assumes "N \<le> OUTPUT_SIZE H"
  shows "let seed_digest = hash_from_seed H seed; st = State_init H seed
         in length seed_digest = OUTPUT_SIZE H
          \<and> (\<forall>i < OUTPUT_SIZE H.
                seed_digest ! i = (if i < 4 then ucast (drop_bit (8 * i) seed) else 0))
          \<and> hash st = fixed_point_map H seed_digest
          \<and> last_dp st = format_input seed_digest
          \<and> hash_count st = 1 \<and> steps_since_last_dp st = 1
          \<and> init_worker H idx arr = (State_init H (of_nat idx), arr\<lparr>dp_count := 0\<rparr>)
          \<and> DPArray_elems (snd (init_worker H idx arr)) = []"
proof -
  have D: "4 \<le> OUTPUT_SIZE H" using assms by (simp add: N_def)
  have eq: "hash_from_seed H seed = store_le seed @ replicate (OUTPUT_SIZE H - 4) 0"
    using hash_from_seed_eq [of H seed] D by simp
  have len: "length (hash_from_seed H seed) = OUTPUT_SIZE H"
    using D by (simp add: eq)
  have nth: "hash_from_seed H seed ! i = (if i < 4 then ucast (drop_bit (8 * i) seed) else 0)"
    if "i < OUTPUT_SIZE H" for i
    using that D by (simp add: eq nth_append store_le_def)
  have h: "hash (State_init H seed) = fixed_point_map H (hash_from_seed H seed)"
    using assms len by (simp add: State_init_def Let_def fixed_point_map_format)
  show ?thesis
    unfolding Let_def using len nth h
    by (simp add: State_init_def init_worker_def DPArray_elems_def Let_def)
qed

text \<open>The walker constructed from the seed 34266 under SHA256.\<close>

lemma store_le_34266: "store_le (34266 :: 32 word) = [0xda, 0x85, 0, 0]"
  by (simp add: store_le_def upt_0_4 drop_bit_eq_div)

lemma seed_digest_34266:
  "hash_from_seed SHA256 (34266 :: 32 word) = [0xda, 0x85, 0, 0] @ replicate 28 0"
  using hash_from_seed_eq [of SHA256 "34266 :: 32 word"]
  by (simp add: SHA256_def store_le_34266)

lemma format_seed_34266: "format_input (hash_from_seed SHA256 (34266 :: 32 word)) = tv_x"
  by (simp add: seed_digest_34266 format_input_eq N_def tv_x_def prefix_def suffix_def
        replicate_numeral)

theorem State_init_spec_witness:
  "N \<le> OUTPUT_SIZE SHA256
   \<and> hash_from_seed SHA256 (34266 :: 32 word) = [0xda, 0x85, 0, 0] @ replicate 28 0
   \<and> hash (State_init SHA256 34266) = tv_d1
   \<and> last_dp (State_init SHA256 34266) = tv_x
   \<and> hash_count (State_init SHA256 34266) = 1
   \<and> steps_since_last_dp (State_init SHA256 34266) = 1
   \<and> DPArray_elems (snd (init_worker SHA256 34266 (tv_arr 7))) = []"
proof -
  have n: "N \<le> OUTPUT_SIZE SHA256" by (simp add: N_def SHA256_def)
  have f: "fixed_point_map SHA256 (hash_from_seed SHA256 (34266 :: 32 word)) = tv_d1"
  proof -
    have "N \<le> length (hash_from_seed SHA256 (34266 :: 32 word))"
      by (simp add: seed_digest_34266 N_def)
    then show ?thesis
      by (simp only: fixed_point_map_format [symmetric] format_seed_34266 SHA256_tv_x)
  qed
  note t = State_init_spec [OF n, of 34266 34266 "tv_arr 7", unfolded Let_def]
  from t have h: "hash (State_init SHA256 34266)
                    = fixed_point_map SHA256 (hash_from_seed SHA256 (34266 :: 32 word))"
    and l: "last_dp (State_init SHA256 34266)
              = format_input (hash_from_seed SHA256 (34266 :: 32 word))"
    and c: "hash_count (State_init SHA256 34266) = 1"
    and s: "steps_since_last_dp (State_init SHA256 34266) = 1"
    and e: "DPArray_elems (snd (init_worker SHA256 34266 (tv_arr 7))) = []"
    by blast+
  show ?thesis
    using n seed_digest_34266 h [unfolded f] l [unfolded format_seed_34266] c s e by blast
qed






section \<open>Properties of Stage 2\<close>

lemma align_x_loop_eq:
  "align_x_loop H x xs ys = ((StageTwoState_step H ^^ (xs - ys)) x, min xs ys)"
proof (induction H x xs ys rule: align_x_loop.induct)
  case (1 H x_state xs ys)
  show ?case
  proof (cases "xs > ys")
    case True
    then have "xs - ys = Suc (xs - 1 - ys)" by simp
    then show ?thesis
      using True 1 by (subst align_x_loop.simps) (auto simp add: funpow_swap1 min_def)
  next
    case False
    then show ?thesis by (subst align_x_loop.simps) (simp add: min_def)
  qed
qed

lemma align_y_loop_eq:
  "align_y_loop H y xs ys = ((StageTwoState_step H ^^ (ys - xs)) y, min xs ys)"
proof (induction H y xs ys rule: align_y_loop.induct)
  case (1 H y_state xs ys)
  show ?case
  proof (cases "xs < ys")
    case True
    then have "ys - xs = Suc (ys - 1 - xs)" by simp
    then show ?thesis
      using True 1 by (subst align_y_loop.simps) (auto simp add: funpow_swap1 min_def)
  next
    case False
    then show ?thesis by (subst align_y_loop.simps) (simp add: min_def)
  qed
qed

lemma s2_hash_count_funpow:
  "s2_hash_count ((StageTwoState_step H ^^ n) s) = s2_hash_count s + n"
  by (induction n) (simp_all add: StageTwoState_step_def Let_def)

lemma stage_two_align_eq:
  "stage_two_align H r =
     ((StageTwoState_step H ^^ (x_steps r - y_steps r)) (StageTwoState_init H (res_x r)),
      (StageTwoState_step H ^^ (y_steps r - x_steps r)) (StageTwoState_init H (res_y r)),
      min (x_steps r) (y_steps r), min (x_steps r) (y_steps r))"
  by (simp add: stage_two_align_def Let_def align_x_loop_eq align_y_loop_eq min_def)

text \<open>
  Claim C7, as amended. The alignment steps the \<open>x\<close> state \<open>x_steps - y_steps\<close> times and
  the \<open>y\<close> state \<open>y_steps - x_steps\<close> times (truncated subtraction), so that at most one
  of the two loops runs and the state whose counter is not larger is not stepped; both
  counters end at the minimum of \<open>x_steps\<close> and \<open>y_steps\<close>.
\<close>

theorem stage_two_align_spec:
  "stage_two_align H r =
     ((StageTwoState_step H ^^ (x_steps r - y_steps r)) (StageTwoState_init H (res_x r)),
      (StageTwoState_step H ^^ (y_steps r - x_steps r)) (StageTwoState_init H (res_y r)),
      min (x_steps r) (y_steps r), min (x_steps r) (y_steps r))
   \<and> s2_hash_count (fst (stage_two_align H r)) = 1 + (x_steps r - y_steps r)
   \<and> s2_hash_count (fst (snd (stage_two_align H r))) = 1 + (y_steps r - x_steps r)
   \<and> (x_steps r - y_steps r = 0 \<or> y_steps r - x_steps r = 0)"
  unfolding stage_two_align_eq
  by (simp add: s2_hash_count_funpow StageTwoState_init_def) linarith

text \<open>
  Claim C7 as stated fails where it says that exactly one of the two loops runs: with
  \<open>x_steps = y_steps\<close> neither state is stepped.
\<close>

theorem align_equal_steps_no_loop:
  "stage_two_align SHA256 tv_r3 =
     (StageTwoState_init SHA256 tv_a, StageTwoState_init SHA256 tv_b, 1, 1)
   \<and> s2_hash_count (StageTwoState_init SHA256 tv_a) = 1
   \<and> s2_hash_count (StageTwoState_init SHA256 tv_b) = 1"
  by (simp add: stage_two_align_def Let_def tv_r3_def align_x_loop.simps align_y_loop.simps
        StageTwoState_init_def)

lemma HASH_ok_length:
  "HASH_ok H \<Longrightarrow> length m = HASH_IN_SIZE \<Longrightarrow> N \<le> length (hash_of H m)"
  by (simp add: HASH_ok_def)

lemma length_chain_input:
  "length start = HASH_IN_SIZE \<Longrightarrow> length (chain_input H start n) = HASH_IN_SIZE"
  by (cases n) simp_all

lemma StageTwoState_funpow:
  "(StageTwoState_step H ^^ n) (StageTwoState_init H start) =
     \<lparr>s2_in = chain_input H start n, s2_out = hash_of H (chain_input H start n),
      s2_hash_count = 1 + n\<rparr>"
  by (induction n) (simp_all add: StageTwoState_init_def StageTwoState_step_def Let_def)

text \<open>A state of Stage 2 standing at position \<open>p\<close> of the chain from \<open>start\<close>.\<close>

definition at_chain :: "HASH \<Rightarrow> HASH_IN \<Rightarrow> nat \<Rightarrow> StageTwoState \<Rightarrow> bool" where
  "at_chain H start p s \<longleftrightarrow>
     s2_in s = chain_input H start p \<and> s2_out s = hash_of H (chain_input H start p)"

lemma at_chain_step:
  "at_chain H start p s \<Longrightarrow> at_chain H start (Suc p) (StageTwoState_step H s)"
  by (simp add: at_chain_def StageTwoState_step_def Let_def)

lemma walk_loop_meets:
  assumes "at_chain H X a x" "at_chain H Y b y"
    and "0 < c"
    and "take N (chain_digest H X (a + c)) = take N (chain_digest H Y (b + c))"
    and "walk_loop H x y c c = (x', y', xs', ys')"
  shows "StageTwoState_eq x' y' \<and> (\<exists>p q. at_chain H X p x' \<and> at_chain H Y q y')"
  using assms
proof (induction c arbitrary: a b x y)
  case 0
  then show ?case by simp
next
  case (Suc c)
  show ?case
  proof (cases "StageTwoState_eq x y")
    case True
    then have "walk_loop H x y (Suc c) (Suc c) = (x, y, Suc c, Suc c)"
      by (subst walk_loop.simps) simp
    then show ?thesis using Suc.prems True by auto
  next
    case False
    have c0: "0 < c"
    proof (rule ccontr)
      assume "\<not> 0 < c"
      then have "c = 0" by simp
      then have "take N (s2_out x) = take N (s2_out y)"
        using Suc.prems(1,2,4) by (simp add: at_chain_def chain_digest_def)
      then show False using False by (simp add: StageTwoState_eq_def)
    qed
    have w: "walk_loop H (StageTwoState_step H x) (StageTwoState_step H y) c c = (x', y', xs', ys')"
      using Suc.prems(5) False by (subst (asm) walk_loop.simps) simp
    show ?thesis
      using Suc.IH [OF at_chain_step [OF Suc.prems(1)] at_chain_step [OF Suc.prems(2)] c0 _ w]
        Suc.prems(4) by simp
  qed
qed

lemma walk_loop_inputs:
  assumes "HASH_ok H"
    and "s2_out x = hash_of H (s2_in x)" "s2_out y = hash_of H (s2_in y)"
    and "length (s2_in x) = HASH_IN_SIZE" "length (s2_in y) = HASH_IN_SIZE"
    and "walk_loop H x y xs ys = (x', y', xs', ys')"
  shows "s2_in x' = s2_in y' \<longleftrightarrow> s2_in x = s2_in y"
  using assms
proof (induction H x y xs ys rule: walk_loop.induct)
  case (1 H x y xs ys)
  show ?case
  proof (cases "\<not> StageTwoState_eq x y \<and> xs > 0 \<and> ys > 0")
    case False
    have "walk_loop H x y xs ys = (x, y, xs, ys)"
      using False by (subst walk_loop.simps) auto
    then show ?thesis using "1.prems" by simp
  next
    case True
    then have ne: "take N (s2_out x) \<noteq> take N (s2_out y)"
      by (simp add: StageTwoState_eq_def)
    then have in_ne: "s2_in x \<noteq> s2_in y" using "1.prems"(2,3) by auto
    have w: "walk_loop H (StageTwoState_step H x) (StageTwoState_step H y) (xs - 1) (ys - 1)
               = (x', y', xs', ys')"
      using "1.prems"(6) True by (subst (asm) walk_loop.simps) simp
    have lx: "N \<le> length (s2_out x)" and ly: "N \<le> length (s2_out y)"
      using "1.prems"(1-5) by (simp_all add: HASH_ok_length)
    have fne: "format_input (s2_out x) \<noteq> format_input (s2_out y)"
      using format_input_inj [OF lx ly] ne by blast
    have "s2_in x' = s2_in y' \<longleftrightarrow>
            s2_in (StageTwoState_step H x) = s2_in (StageTwoState_step H y)"
      using "1.IH" [OF True "1.prems"(1) _ _ _ _ w]
      by (simp add: StageTwoState_step_def Let_def)
    then show ?thesis
      using fne in_ne by (simp add: StageTwoState_step_def Let_def)
  qed
qed

text \<open>
  Claim C1, as amended. Let a Stage 1 result be such that the chain from \<open>x\<close> after
  \<open>x_steps\<close> hash evaluations and the chain from \<open>y\<close> after \<open>y_steps\<close> evaluations give
  digests with the same first \<open>N\<close> bytes. Then Stage 2 returns two states whose digests
  are the hashes of their inputs and agree on the first \<open>N\<close> bytes; and the two inputs are
  equal exactly when the two chains, aligned to the same remaining length, stand at the
  same input.
\<close>

theorem vow_stage_two_collision:
  assumes "HASH_ok H"
    and "length (res_x r) = HASH_IN_SIZE" and "length (res_y r) = HASH_IN_SIZE"
    and "0 < x_steps r" and "0 < y_steps r"
    and "take N (chain_digest H (res_x r) (x_steps r))
           = take N (chain_digest H (res_y r) (y_steps r))"
  shows "case vow_stage_two H r of (x_state, y_state) \<Rightarrow>
           s2_out x_state = hash_of H (s2_in x_state)
         \<and> s2_out y_state = hash_of H (s2_in y_state)
         \<and> take N (hash_of H (s2_in x_state)) = take N (hash_of H (s2_in y_state))
         \<and> (s2_in x_state = s2_in y_state \<longleftrightarrow>
              chain_input H (res_x r) (x_steps r - y_steps r)
                = chain_input H (res_y r) (y_steps r - x_steps r))"
proof -
  define dx where "dx = x_steps r - y_steps r"
  define dy where "dy = y_steps r - x_steps r"
  define c where "c = min (x_steps r) (y_steps r)"
  define x0 where "x0 = (StageTwoState_step H ^^ dx) (StageTwoState_init H (res_x r))"
  define y0 where "y0 = (StageTwoState_step H ^^ dy) (StageTwoState_init H (res_y r))"
  have al: "stage_two_align H r = (x0, y0, c, c)"
    using stage_two_align_eq [of H r] by (simp add: x0_def y0_def c_def dx_def dy_def)
  obtain x' y' xs' ys' where w: "walk_loop H x0 y0 c c = (x', y', xs', ys')"
    by (metis prod_cases4)
  have res: "vow_stage_two H r = (x', y')"
    by (simp add: vow_stage_two_def al w)
  have ax: "at_chain H (res_x r) dx x0" and ay: "at_chain H (res_y r) dy y0"
    by (simp_all add: at_chain_def x0_def y0_def StageTwoState_funpow)
  have c0: "0 < c" using assms(4,5) by (simp add: c_def)
  have sx: "dx + c = x_steps r" and sy: "dy + c = y_steps r"
    by (simp_all add: dx_def dy_def c_def)
  have meet: "StageTwoState_eq x' y' \<and> (\<exists>p q. at_chain H (res_x r) p x' \<and> at_chain H (res_y r) q y')"
    using walk_loop_meets [OF ax ay c0 _ w] assms(6) by (simp add: sx sy)
  then have ox: "s2_out x' = hash_of H (s2_in x')" and oy: "s2_out y' = hash_of H (s2_in y')"
    by (auto simp add: at_chain_def)
  have eqN: "take N (hash_of H (s2_in x')) = take N (hash_of H (s2_in y'))"
    using meet ox oy by (simp add: StageTwoState_eq_def)
  have "s2_in x' = s2_in y' \<longleftrightarrow> s2_in x0 = s2_in y0"
    using walk_loop_inputs [OF assms(1) _ _ _ _ w] ax ay
    by (simp add: at_chain_def length_chain_input assms(2,3))
  then have ins: "s2_in x' = s2_in y' \<longleftrightarrow>
      chain_input H (res_x r) dx = chain_input H (res_y r) dy"
    using ax ay by (simp add: at_chain_def)
  show ?thesis
    unfolding res using ox oy eqN ins by (simp add: dx_def dy_def)
qed


text \<open>
  The chains from \<open>tv_p\<close> (two evaluations) and \<open>tv_b\<close> (one evaluation) end in digests
  with the same first \<open>N\<close> bytes; Stage 2 returns two different inputs.
\<close>

theorem vow_stage_two_collision_witness:
  "HASH_ok SHA256 \<and> length (res_x tv_r2) = HASH_IN_SIZE \<and> length (res_y tv_r2) = HASH_IN_SIZE
   \<and> take N (chain_digest SHA256 (res_x tv_r2) (x_steps tv_r2))
        = take N (chain_digest SHA256 (res_y tv_r2) (y_steps tv_r2))
   \<and> (case vow_stage_two SHA256 tv_r2 of (x_state, y_state) \<Rightarrow>
         take N (hash_of SHA256 (s2_in x_state)) = take N (hash_of SHA256 (s2_in y_state))
       \<and> s2_in x_state \<noteq> s2_in y_state)"
proof -
  have ne: "tv_a \<noteq> tv_b" by (simp add: tv_a_def tv_b_def)
  have c1: "chain_digest SHA256 tv_p 2 = tv_da"
    by (simp add: chain_digest_def numeral_2_eq_2 SHA256_tv_p format_tv_dp SHA256_tv_a)
  have c2: "chain_digest SHA256 tv_b 1 = tv_db"
    by (simp add: chain_digest_def SHA256_tv_b)
  have e: "take N tv_da = take N tv_db" by (simp add: N_def tv_da_def tv_db_def)
  have lp: "length tv_p = HASH_IN_SIZE" and lb: "length tv_b = HASH_IN_SIZE"
    by (simp_all add: HASH_IN_SIZE_eq tv_p_def tv_b_def)
  have i: "chain_input SHA256 tv_p 1 = tv_a" by (simp add: SHA256_tv_p format_tv_dp)
  show ?thesis
    using vow_stage_two_collision [of SHA256 tv_r2] HASH_ok_SHA256 ne c1 c2 e lp lb i
    by (auto simp add: tv_r2_def split: prod.splits)
qed

section \<open>The hash function of the chain table\<close>

text \<open>
  Claim C4. Keys of the chain table that compare equal must have the same hash value,
  so that the lookup of a key equal to a stored one finds it. \<^verbatim>\<open>operator==\<close> compares the
  bytes \<open>0\<close> to \<open>N - 1 = 7\<close> of the digests, while \<^verbatim>\<open>std::hash<DP_KEY>\<close> reads eight bytes
  from the offset \<open>K = 2\<close>, the bytes 2 to 9. The SHA-256 digests \<open>tv_da\<close> and \<open>tv_db\<close> agree
  on the bytes 0 to 7 and differ at the byte 8: as keys they are equal, their hash values
  differ, and the lookup of one in a table that holds the other has no defined result.
\<close>

theorem DP_KEY_hash_mismatch:
  "DP_KEY_eq tv_da tv_db
   \<and> DP_KEY_hash tv_da = 0x80a8aa5263c8bf50 \<and> DP_KEY_hash tv_db = 0x4554aa5263c8bf50
   \<and> DP_KEY_hash tv_da \<noteq> DP_KEY_hash tv_db
   \<and> dp_map_find [(tv_da, tv_a, 1)] tv_db = Inl Hash_requirement_violated"
proof -
  have e: "DP_KEY_eq tv_da tv_db"
    by (simp add: DP_KEY_eq_def N_def tv_da_def tv_db_def)
  have a: "DP_KEY_hash tv_da = 0x80a8aa5263c8bf50"
    by (simp add: DP_KEY_hash_def load_le_def K_def tv_da_def)
  have b: "DP_KEY_hash tv_db = 0x4554aa5263c8bf50"
    by (simp add: DP_KEY_hash_def load_le_def K_def tv_db_def)
  have h: "DP_KEY_hash tv_da \<noteq> DP_KEY_hash tv_db"
    unfolding a b by simp
  show ?thesis
    using e a b h by (simp add: dp_map_find_def)
qed

section \<open>Properties of Stage 1: the merge\<close>

text \<open>
  The two nested loops of the merge are one loop over the records of all walkers in the
  order (walker index ascending, then position in the buffer). \<open>merge_in_order\<close> is that
  loop with the statements and the lookups of the code.
\<close>

definition dps_in_order :: "nat \<Rightarrow> DPArray list \<Rightarrow> (nat \<times> DP) list" where
  "dps_in_order threads arrs =
     concat (map (\<lambda>w. map (Pair w) (DPArray_elems (arrs ! w))) [0..<threads])"

fun merge_in_order :: "(nat \<times> DP) list \<Rightarrow> stage_one_vars \<Rightarrow> fault + stage_one_vars control" where
  "merge_in_order [] v = Inr (Continue v)"
| "merge_in_order ((w, e) # rest) v =
     (case dp_map_find (dp_map v) (dp_hash e) of
        Inl f \<Rightarrow> Inl f
      | Inr (Some (chain_start, chain_length)) \<Rightarrow>
          Inr (Goto_stage_one_end
                 (v\<lparr>result := (result v)\<lparr>res_x := chain_start, x_steps := chain_length,
                                          res_y := host_last_dp v ! w,
                                          y_steps := dp_steps_since_last_dp e,
                                          dp_collided := dp_hash e, found := True\<rparr>\<rparr>))
      | Inr None \<Rightarrow>
          merge_in_order rest
            (v\<lparr>dp_map := dp_map v @ [(dp_hash e, host_last_dp v ! w, dp_steps_since_last_dp e)],
               host_last_dp := (host_last_dp v)[w := format_input (dp_hash e)]\<rparr>))"

lemma dp_map_find_None:
  "dp_map_find m k = Inr None \<Longrightarrow> dp_map_assign m k v = m @ [(k, v)]"
  by (fastforce simp add: dp_map_find_def dp_map_assign_def list_ex_iff find_None_iff
        split: if_splits)

lemma merge_in_order_append:
  "merge_in_order (ps @ qs) v =
     (case merge_in_order ps v of
        Inl f \<Rightarrow> Inl f
      | Inr (Goto_stage_one_end v1) \<Rightarrow> Inr (Goto_stage_one_end v1)
      | Inr (Continue v1) \<Rightarrow> merge_in_order qs v1)"
  by (induction ps v rule: merge_in_order.induct)
     (auto split: sum.splits option.splits prod.splits)

lemma merge_dps_in_order: "merge_dps i dps v = merge_in_order (map (Pair i) dps) v"
  by (induction dps arbitrary: v)
     (auto simp add: Let_def dp_map_find_None split: sum.splits option.splits prod.splits)

lemma merge_workers_in_order:
  "merge_workers ws arrs v =
     merge_in_order (concat (map (\<lambda>w. map (Pair w) (DPArray_elems (arrs ! w))) ws)) v"
  by (induction ws arbitrary: v)
     (auto simp add: merge_in_order_append merge_dps_in_order split: sum.splits control.splits)

lemma merge_pass_eq:
  "merge_pass threads host_dp_arrays v
     = merge_in_order (dps_in_order threads host_dp_arrays) v"
  by (simp add: merge_pass_def dps_in_order_def merge_workers_in_order)

text \<open>
  The merge in the words of the design. The equality of keys is authoritative: a key is
  present in the chain table when a stored key agrees with it on the first \<open>N\<close> bytes.
  The records are taken in the order (walker index ascending, then position in the
  buffer); a record whose key is present ends Stage 1 at once with the stored chain start
  and length as \<open>x, x_steps\<close>, with \<open>last_dp[w]\<close> and the step count of the record as
  \<open>y, y_steps\<close> and with the digest of the record; any other record is inserted under
  its key with \<open>(last_dp[w], steps)\<close>, after which \<open>last_dp[w]\<close> becomes the formatted
  digest of the record.
\<close>

definition table_entry :: "chain_table \<Rightarrow> HASH_OUT \<Rightarrow> (HASH_IN \<times> nat) option" where
  "table_entry m k = map_option snd (find (\<lambda>e. take N (fst e) = take N k) m)"

fun merge_spec :: "(nat \<times> DP) list \<Rightarrow> stage_one_vars \<Rightarrow> stage_one_vars control" where
  "merge_spec [] v = Continue v"
| "merge_spec ((w, e) # rest) v =
     (case table_entry (dp_map v) (dp_hash e) of
        Some (chain_start, chain_length) \<Rightarrow>
          Goto_stage_one_end
            (v\<lparr>result := (result v)\<lparr>res_x := chain_start, x_steps := chain_length,
                                     res_y := host_last_dp v ! w,
                                     y_steps := dp_steps_since_last_dp e,
                                     dp_collided := dp_hash e, found := True\<rparr>\<rparr>)
      | None \<Rightarrow>
          merge_spec rest
            (v\<lparr>dp_map := dp_map v @ [(dp_hash e, host_last_dp v ! w, dp_steps_since_last_dp e)],
               host_last_dp := (host_last_dp v)[w := format_input (dp_hash e)]\<rparr>))"

text \<open>
  The hash function respects the equality of keys on a list of digests. Where it does so
  on the stored keys and on the digests of the records, the merge pass of the code is the
  merge of the design.
\<close>

definition hash_respects_eq :: "HASH_OUT list \<Rightarrow> bool" where
  "hash_respects_eq ks \<longleftrightarrow>
     (\<forall>a \<in> set ks. \<forall>b \<in> set ks. DP_KEY_eq a b \<longrightarrow> DP_KEY_hash a = DP_KEY_hash b)"

lemma dp_map_find_table_entry:
  assumes "hash_respects_eq (k # map fst m)"
  shows "dp_map_find m k = Inr (table_entry m k)"
proof -
  have "\<not> list_ex (\<lambda>e. DP_KEY_eq (fst e) k \<and> DP_KEY_hash (fst e) \<noteq> DP_KEY_hash k) m"
    using assms by (auto simp add: hash_respects_eq_def list_ex_iff)
  then show ?thesis
    by (simp add: dp_map_find_def table_entry_def DP_KEY_eq_def)
qed

lemma hash_respects_eq_subset:
  "hash_respects_eq ks \<Longrightarrow> set js \<subseteq> set ks \<Longrightarrow> hash_respects_eq js"
  by (auto simp add: hash_respects_eq_def)

lemma merge_in_order_spec:
  assumes "hash_respects_eq (map fst (dp_map v) @ map (\<lambda>p. dp_hash (snd p)) ps)"
  shows "merge_in_order ps v = Inr (merge_spec ps v)"
  using assms
proof (induction ps arbitrary: v)
  case Nil
  then show ?case by simp
next
  case (Cons p ps)
  obtain w e where p: "p = (w, e)" by (cases p)
  have f: "dp_map_find (dp_map v) (dp_hash e) = Inr (table_entry (dp_map v) (dp_hash e))"
    by (rule dp_map_find_table_entry)
       (rule hash_respects_eq_subset [OF Cons.prems], auto simp add: p)
  show ?case
  proof (cases "table_entry (dp_map v) (dp_hash e)")
    case None
    let ?v = "v\<lparr>dp_map := dp_map v @ [(dp_hash e, host_last_dp v ! w, dp_steps_since_last_dp e)],
                 host_last_dp := (host_last_dp v)[w := format_input (dp_hash e)]\<rparr>"
    have "hash_respects_eq (map fst (dp_map ?v) @ map (\<lambda>p. dp_hash (snd p)) ps)"
      by (rule hash_respects_eq_subset [OF Cons.prems]) (auto simp add: p)
    then have "merge_in_order ps ?v = Inr (merge_spec ps ?v)" by (rule Cons.IH)
    then show ?thesis by (simp add: p f None)
  next
    case (Some a)
    then show ?thesis by (cases a) (simp add: p f)
  qed
qed

lemma merge_pass_spec:
  assumes "hash_respects_eq (map fst (dp_map v)
             @ map (\<lambda>p. dp_hash (snd p)) (dps_in_order threads host_dp_arrays))"
  shows "merge_pass threads host_dp_arrays v
           = Inr (merge_spec (dps_in_order threads host_dp_arrays) v)"
  using assms by (simp add: merge_pass_eq merge_in_order_spec)

text \<open>
  Claim C3. The claim requires of a record whose key is present in the chain table that
  Stage 1 ends at once with the stored entry. The table of \<open>tv_merge_vars\<close> holds the key
  \<open>tv_d2\<close> with the entry \<open>(tv_x, 2)\<close>, and the record of walker 0 has the digest \<open>tv_d2b\<close>,
  which agrees with \<open>tv_d2\<close> on the bytes 0 to 7: the key is present and the merge of the
  design is the hit with \<open>x = tv_x\<close>, \<open>x_steps = 2\<close>, \<open>y = last_dp[0]\<close> and \<open>y_steps = 3\<close>.
  The hash values of the two keys differ, by the defect of claim C4, so that the lookup
  of the code has no defined result: the merge pass of the code does not return the hit.
\<close>

theorem merge_pass_misses_hit:
  "DP_KEY_eq tv_d2 tv_d2b \<and> DP_KEY_hash tv_d2 \<noteq> DP_KEY_hash tv_d2b
   \<and> merge_pass 1 [tv_merge_arr] tv_merge_vars = Inl Hash_requirement_violated
   \<and> merge_spec (dps_in_order 1 [tv_merge_arr]) tv_merge_vars =
       Goto_stage_one_end
         (tv_merge_vars\<lparr>result :=
            \<lparr>x_steps = 2, y_steps = 3, total_hash_counts = 7, res_x = tv_x, res_y = tv_a,
             dp_collided = tv_d2b, found = True\<rparr>\<rparr>)"
proof -
  have e: "DP_KEY_eq tv_d2 tv_d2b"
    by (simp add: DP_KEY_eq_def N_def tv_d2_def tv_d2b_def)
  have h: "DP_KEY_hash tv_d2 \<noteq> DP_KEY_hash tv_d2b"
    by (simp add: DP_KEY_hash_def load_le_def K_def tv_d2_def tv_d2b_def)
  have d: "dps_in_order 1 [tv_merge_arr] =
      [(0, \<lparr>dp_in = tv_p, dp_hash = tv_d2b, dp_steps_since_last_dp = 3\<rparr>)]"
    by (simp add: dps_in_order_def DPArray_elems_def tv_merge_arr_def)
  have c: "merge_pass 1 [tv_merge_arr] tv_merge_vars = Inl Hash_requirement_violated"
    unfolding merge_pass_eq d using e h by (simp add: dp_map_find_def tv_merge_vars_def)
  have t: "table_entry [(tv_d2, tv_x, 2)] tv_d2b = Some (tv_x, 2)"
    using e by (simp add: table_entry_def DP_KEY_eq_def)
  have s: "merge_spec (dps_in_order 1 [tv_merge_arr]) tv_merge_vars =
       Goto_stage_one_end
         (tv_merge_vars\<lparr>result :=
            \<lparr>x_steps = 2, y_steps = 3, total_hash_counts = 7, res_x = tv_x, res_y = tv_a,
             dp_collided = tv_d2b, found = True\<rparr>\<rparr>)"
    unfolding d by (simp add: t tv_merge_vars_def)
  show ?thesis using e h c s by blast
qed


section \<open>Properties of Stage 1: the kernels and the order of the work-items\<close>

text \<open>
  Both kernels have the same shape: the work-item \<open>idx\<close> computes on its own state and
  array and stores the two results at its own index.
\<close>

definition work_item ::
  "(nat \<Rightarrow> State \<times> DPArray \<Rightarrow> fault + State \<times> DPArray)
     \<Rightarrow> nat \<Rightarrow> State list \<times> DPArray list \<Rightarrow> fault + State list \<times> DPArray list" where
  "work_item g idx = (\<lambda>(sts, arrs).
     case g idx (sts ! idx, arrs ! idx) of
       Inl e \<Rightarrow> Inl e
     | Inr (st, arr) \<Rightarrow> Inr (sts[idx := st], arrs[idx := arr]))"

definition initial_item :: "HASH \<Rightarrow> nat \<Rightarrow> nat \<Rightarrow> State \<times> DPArray \<Rightarrow> fault + State \<times> DPArray" where
  "initial_item H batch idx = (\<lambda>(st, arr). steps H batch (init_worker H idx arr))"

definition batch_item :: "HASH \<Rightarrow> nat \<Rightarrow> nat \<Rightarrow> State \<times> DPArray \<Rightarrow> fault + State \<times> DPArray" where
  "batch_item H batch idx = (\<lambda>(st, arr). steps H batch (st, arr\<lparr>dp_count := 0\<rparr>))"

lemma initial_kernel_work_item: "initial_kernel H batch = work_item (initial_item H batch)"
  by (simp add: initial_kernel_def work_item_def initial_item_def fun_eq_iff)

lemma StageOneKernel_work_item: "StageOneKernel H batch = work_item (batch_item H batch)"
  by (simp add: StageOneKernel_def work_item_def batch_item_def fun_eq_iff)

lemma step_fault: "step H w = Inl e \<Longrightarrow> e = DP_array_overflow"
  by (cases w) (auto simp add: step_def Let_def DPArray_append_def split: if_splits sum.splits)

lemma steps_fault: "steps H n w = Inl e \<Longrightarrow> e = DP_array_overflow"
  by (induction n arbitrary: w) (auto dest: step_fault split: sum.splits)

text \<open>The outcome of a kernel, written without reference to an order of the work-items.\<close>

definition kernel_outcome ::
  "(nat \<Rightarrow> State \<times> DPArray \<Rightarrow> fault + State \<times> DPArray)
     \<Rightarrow> nat \<Rightarrow> State list \<times> DPArray list \<Rightarrow> fault + State list \<times> DPArray list" where
  "kernel_outcome g n = (\<lambda>(sts, arrs).
     if \<forall>w < n. \<not> isl (g w (sts ! w, arrs ! w))
     then Inr (map (\<lambda>w. fst (projr (g w (sts ! w, arrs ! w)))) [0..<n],
               map (\<lambda>w. snd (projr (g w (sts ! w, arrs ! w)))) [0..<n])
     else Inl DP_array_overflow)"

lemma parallel_for_partial:
  assumes "distinct order" and "set order \<subseteq> {..<n}"
    and "length sts = n" and "length arrs = n"
    and "\<And>w x e. g w x = Inl e \<Longrightarrow> e = DP_array_overflow"
  shows "parallel_for (work_item g) order (sts, arrs) =
     (if \<forall>w \<in> set order. \<not> isl (g w (sts ! w, arrs ! w))
      then Inr (map (\<lambda>w. if w \<in> set order then fst (projr (g w (sts ! w, arrs ! w))) else sts ! w) [0..<n],
                map (\<lambda>w. if w \<in> set order then snd (projr (g w (sts ! w, arrs ! w))) else arrs ! w) [0..<n])
      else Inl DP_array_overflow)"
  using assms(1-4)
proof (induction order arbitrary: sts arrs)
  case Nil
  then show ?case using map_nth [of sts] map_nth [of arrs] by simp
next
  case (Cons idx order)
  have idx: "idx < n" and nin: "idx \<notin> set order" and d: "distinct order"
    and sub: "set order \<subseteq> {..<n}"
    using Cons.prems by auto
  show ?case
  proof (cases "g idx (sts ! idx, arrs ! idx)")
    case (Inl e)
    then show ?thesis using assms(5) [OF Inl] by (auto simp add: work_item_def)
  next
    case (Inr r)
    obtain st arr where r: "r = (st, arr)" by (cases r)
    have other: "sts[idx := st] ! w = sts ! w" "arrs[idx := arr] ! w = arrs ! w"
      if "w \<in> set order" for w
    proof -
      have "idx \<noteq> w" using that nin by auto
      then show "sts[idx := st] ! w = sts ! w" "arrs[idx := arr] ! w = arrs ! w" by simp_all
    qed
    have IH: "parallel_for (work_item g) order (sts[idx := st], arrs[idx := arr]) =
       (if \<forall>w \<in> set order. \<not> isl (g w (sts ! w, arrs ! w))
        then Inr (map (\<lambda>w. if w \<in> set order then fst (projr (g w (sts ! w, arrs ! w)))
                            else sts[idx := st] ! w) [0..<n],
                  map (\<lambda>w. if w \<in> set order then snd (projr (g w (sts ! w, arrs ! w)))
                            else arrs[idx := arr] ! w) [0..<n])
        else Inl DP_array_overflow)"
      using Cons.IH [OF d sub, of "sts[idx := st]" "arrs[idx := arr]"] Cons.prems(3,4)
      by (simp add: other cong: map_cong if_cong)
    have m1: "map (\<lambda>w. if w \<in> set order then fst (projr (g w (sts ! w, arrs ! w)))
                            else sts[idx := st] ! w) [0..<n]
            = map (\<lambda>w. if w \<in> set (idx # order) then fst (projr (g w (sts ! w, arrs ! w)))
                            else sts ! w) [0..<n]"
      using Inr r idx nin Cons.prems(3) by (auto simp add: nth_list_update)
    have m2: "map (\<lambda>w. if w \<in> set order then snd (projr (g w (sts ! w, arrs ! w)))
                            else arrs[idx := arr] ! w) [0..<n]
            = map (\<lambda>w. if w \<in> set (idx # order) then snd (projr (g w (sts ! w, arrs ! w)))
                            else arrs ! w) [0..<n]"
      using Inr r idx nin Cons.prems(4) by (auto simp add: nth_list_update)
    have unfold: "parallel_for (work_item g) (idx # order) (sts, arrs)
        = parallel_for (work_item g) order (sts[idx := st], arrs[idx := arr])"
      using Inr r by (simp add: work_item_def)
    have ok: "\<not> isl (g idx (sts ! idx, arrs ! idx))" using Inr by simp
    show ?thesis
      unfolding unfold IH m1 m2 using ok by simp
  qed
qed

lemma parallel_for_outcome:
  assumes "distinct order" and "set order = {..<n}"
    and "length sts = n" and "length arrs = n"
    and "\<And>w x e. g w x = Inl e \<Longrightarrow> e = DP_array_overflow"
  shows "parallel_for (work_item g) order (sts, arrs) = kernel_outcome g n (sts, arrs)"
proof -
  have "set order \<subseteq> {..<n}" using assms(2) by simp
  from parallel_for_partial [OF assms(1) this assms(3,4,5)]
  show ?thesis
    using assms(2) by (simp add: kernel_outcome_def cong: map_cong)
qed

text \<open>
  Two arrays with the same records: the slots from \<open>dp_count\<close> on hold values that no
  part of the program reads.
\<close>

definition DPArray_same :: "DPArray \<Rightarrow> DPArray \<Rightarrow> bool" where
  "DPArray_same a b \<longleftrightarrow>
     dp_count a = dp_count b \<and> DPArray_elems a = DPArray_elems b
     \<and> length (data a) = DP_ARRAY_LEN \<and> length (data b) = DP_ARRAY_LEN"

definition item_same :: "State \<times> DPArray \<Rightarrow> State \<times> DPArray \<Rightarrow> bool" where
  "item_same p q \<longleftrightarrow> fst p = fst q \<and> DPArray_same (snd p) (snd q)"

lemma DPArray_append_same:
  assumes "DPArray_same a b"
  shows "rel_sum (=) DPArray_same (DPArray_append a i h s) (DPArray_append b i h s)"
  using assms
  by (auto simp add: DPArray_same_def DPArray_append_def DPArray_elems_def take_Suc_conv_app_nth)

lemma step_same:
  assumes "item_same p q"
  shows "rel_sum (=) item_same (step H p) (step H q)"
proof -
  obtain st a b where p: "p = (st, a)" and q: "q = (st, b)" and ab: "DPArray_same a b"
    using assms by (cases p, cases q) (auto simp add: item_same_def)
  define st3 where "st3 = st\<lparr>hash := hash_of H (format_input (hash st)),
    steps_since_last_dp := steps_since_last_dp st + 1, hash_count := hash_count st + 1\<rparr>"
  show ?thesis
  proof (cases "is_dp H st3")
    case False
    then show ?thesis using ab
      by (simp add: p q step_def Let_def st3_def item_same_def)
  next
    case True
    have "rel_sum (=) DPArray_same
            (DPArray_append a (format_input (hash st)) (hash st3) (steps_since_last_dp st3))
            (DPArray_append b (format_input (hash st)) (hash st3) (steps_since_last_dp st3))"
      by (rule DPArray_append_same [OF ab])
    then show ?thesis using True
      by (auto simp add: p q step_def Let_def st3_def item_same_def rel_sum.simps
               split: sum.splits)
  qed
qed

lemma steps_same:
  assumes "item_same p q"
  shows "rel_sum (=) item_same (steps H n p) (steps H n q)"
  using assms
proof (induction n arbitrary: p q)
  case 0
  then show ?case by simp
next
  case (Suc n)
  have r: "rel_sum (=) item_same (step H p) (step H q)"
    by (rule step_same [OF Suc.prems])
  show ?case
  proof (cases "step H p")
    case (Inl e)
    then have "step H q = Inl e" using r by (cases "step H q") simp_all
    then show ?thesis using Inl by simp
  next
    case (Inr p1)
    then obtain q1 where q1: "step H q = Inr q1" and s: "item_same p1 q1"
      using r by (cases "step H q") simp_all
    show ?thesis using Inr q1 Suc.IH [OF s] by simp
  qed
qed

lemma kernel_outcome_same:
  assumes "\<And>w. w < n \<Longrightarrow>
             rel_sum (=) item_same (g w (sts1 ! w, arrs1 ! w)) (g w (sts2 ! w, arrs2 ! w))"
  shows "rel_sum (=) (\<lambda>(s1, a1) (s2, a2). s1 = s2 \<and> list_all2 DPArray_same a1 a2)
           (kernel_outcome g n (sts1, arrs1)) (kernel_outcome g n (sts2, arrs2))"
proof -
  have isl: "isl (g w (sts1 ! w, arrs1 ! w)) = isl (g w (sts2 ! w, arrs2 ! w))" if "w < n" for w
    using assms [OF that] by (auto simp add: rel_sum.simps)
  have pr: "item_same (projr (g w (sts1 ! w, arrs1 ! w))) (projr (g w (sts2 ! w, arrs2 ! w)))"
    if "w < n" "\<not> isl (g w (sts1 ! w, arrs1 ! w))" for w
    using assms [OF that(1)] that(2) by (auto simp add: rel_sum.simps)
  show ?thesis
  proof (cases "\<forall>w < n. \<not> isl (g w (sts1 ! w, arrs1 ! w))")
    case True
    then have T2: "\<forall>w < n. \<not> isl (g w (sts2 ! w, arrs2 ! w))" using isl by simp
    have "map (\<lambda>w. fst (projr (g w (sts1 ! w, arrs1 ! w)))) [0..<n]
        = map (\<lambda>w. fst (projr (g w (sts2 ! w, arrs2 ! w)))) [0..<n]"
      using pr True by (auto simp add: item_same_def)
    moreover have "list_all2 DPArray_same
        (map (\<lambda>w. snd (projr (g w (sts1 ! w, arrs1 ! w)))) [0..<n])
        (map (\<lambda>w. snd (projr (g w (sts2 ! w, arrs2 ! w)))) [0..<n])"
      using pr True by (auto simp add: item_same_def list_all2_conv_all_nth)
    ultimately show ?thesis using True T2 by (simp add: kernel_outcome_def)
  next
    case False
    then have "\<not> (\<forall>w < n. \<not> isl (g w (sts2 ! w, arrs2 ! w)))" using isl by auto
    then show ?thesis using False by (simp add: kernel_outcome_def)
  qed
qed

definition vars_same :: "nat \<Rightarrow> stage_one_vars \<Rightarrow> stage_one_vars \<Rightarrow> bool" where
  "vars_same n v1 v2 \<longleftrightarrow>
     states v1 = states v2 \<and> length (states v1) = n
     \<and> list_all2 DPArray_same (device_dp_arrays v1) (device_dp_arrays v2)
     \<and> length (device_dp_arrays v1) = n
     \<and> dp_map v1 = dp_map v2 \<and> host_last_dp v1 = host_last_dp v2
     \<and> result v1 = result v2 \<and> batch_count v1 = batch_count v2"

definition valid_order :: "nat \<Rightarrow> nat list \<Rightarrow> bool" where
  "valid_order n order \<longleftrightarrow> distinct order \<and> set order = {..<n}"

definition valid_mem :: "nat \<Rightarrow> State list \<times> DPArray list \<Rightarrow> bool" where
  "valid_mem n mem \<longleftrightarrow>
     length (fst mem) = n \<and> length (snd mem) = n
     \<and> (\<forall>a \<in> set (snd mem). length (data a) = DP_ARRAY_LEN)"

lemma merge_in_order_same:
  assumes "vars_same n v1 v2"
  shows "rel_sum (=) (rel_control (vars_same n)) (merge_in_order ps v1) (merge_in_order ps v2)"
  using assms
proof (induction ps arbitrary: v1 v2)
  case Nil
  then show ?case by simp
next
  case (Cons p ps)
  obtain w e where p: "p = (w, e)" by (cases p)
  have m: "dp_map v1 = dp_map v2" and l: "host_last_dp v1 = host_last_dp v2"
    and r: "result v1 = result v2"
    using Cons.prems by (auto simp add: vars_same_def)
  show ?case
  proof (cases "dp_map_find (dp_map v2) (dp_hash e)")
    case (Inl f)
    then show ?thesis by (simp add: p m)
  next
    case (Inr found_entry)
    show ?thesis
    proof (cases found_entry)
      case None
      have "vars_same n
              (v1\<lparr>dp_map := dp_map v1 @ [(dp_hash e, host_last_dp v1 ! w, dp_steps_since_last_dp e)],
                  host_last_dp := (host_last_dp v1)[w := format_input (dp_hash e)]\<rparr>)
              (v2\<lparr>dp_map := dp_map v2 @ [(dp_hash e, host_last_dp v2 ! w, dp_steps_since_last_dp e)],
                  host_last_dp := (host_last_dp v2)[w := format_input (dp_hash e)]\<rparr>)"
        using Cons.prems by (auto simp add: vars_same_def)
      from Cons.IH [OF this] show ?thesis using Inr None by (simp add: p m)
    next
      case (Some entry)
      obtain cs cl where entry: "entry = (cs, cl)" by (cases entry)
      show ?thesis using Inr Some entry Cons.prems
        by (auto simp add: p m vars_same_def)
    qed
  qed
qed

lemma dps_in_order_same:
  assumes "list_all2 DPArray_same a1 a2" and "length a1 = n"
  shows "dps_in_order n a1 = dps_in_order n a2"
proof -
  have "DPArray_elems (a1 ! w) = DPArray_elems (a2 ! w)" if "w < n" for w
    using assms that by (auto simp add: list_all2_conv_all_nth DPArray_same_def)
  then have "map (\<lambda>w. map (Pair w) (DPArray_elems (a1 ! w))) [0..<n]
           = map (\<lambda>w. map (Pair w) (DPArray_elems (a2 ! w))) [0..<n]"
    by (intro map_cong) auto
  then show ?thesis unfolding dps_in_order_def by (rule arg_cong)
qed

lemma batch_item_same:
  assumes "DPArray_same a b"
  shows "rel_sum (=) item_same (batch_item H batch w (st, a)) (batch_item H batch w (st, b))"
proof -
  have "item_same (st, a\<lparr>dp_count := 0\<rparr>) (st, b\<lparr>dp_count := 0\<rparr>)"
    using assms by (simp add: item_same_def DPArray_same_def DPArray_elems_def)
  then show ?thesis by (simp add: batch_item_def steps_same)
qed

lemma initial_item_same:
  assumes "length (data a) = DP_ARRAY_LEN" and "length (data b) = DP_ARRAY_LEN"
  shows "rel_sum (=) item_same (initial_item H batch w (s, a)) (initial_item H batch w (t, b))"
proof -
  have "item_same (init_worker H w a) (init_worker H w b)"
    using assms by (simp add: item_same_def DPArray_same_def DPArray_elems_def init_worker_def)
  then show ?thesis by (simp add: initial_item_def steps_same)
qed

lemma batch_item_fault: "batch_item H batch w x = Inl e \<Longrightarrow> e = DP_array_overflow"
  by (cases x) (auto simp add: batch_item_def dest: steps_fault)

lemma initial_item_fault: "initial_item H batch w x = Inl e \<Longrightarrow> e = DP_array_overflow"
  by (cases x) (auto simp add: initial_item_def dest: steps_fault)

lemma kernel_outcome_lengths:
  "kernel_outcome g n m = Inr (sts, arrs) \<Longrightarrow> length sts = n \<and> length arrs = n"
  by (cases m) (auto simp add: kernel_outcome_def split: if_splits)

lemma stage_one_pass_same:
  assumes "vars_same n v1 v2" and "valid_order n o1" and "valid_order n o2"
  shows "rel_sum (=) (vars_same n) (stage_one_pass H n batch o1 v1) (stage_one_pass H n batch o2 v2)"
proof -
  have st: "states v1 = states v2" and ls: "length (states v1) = n"
    and la: "length (device_dp_arrays v1) = n"
    and dev: "list_all2 DPArray_same (device_dp_arrays v1) (device_dp_arrays v2)"
    using assms(1) by (auto simp add: vars_same_def)
  have la2: "length (device_dp_arrays v2) = n" using dev la by (simp add: list_all2_lengthD)
  have k1: "parallel_for (StageOneKernel H batch) o1 (states v1, device_dp_arrays v1)
              = kernel_outcome (batch_item H batch) n (states v1, device_dp_arrays v1)"
    unfolding StageOneKernel_work_item
    using assms(2) ls la by (intro parallel_for_outcome) (auto simp add: valid_order_def dest: batch_item_fault)
  have k2: "parallel_for (StageOneKernel H batch) o2 (states v2, device_dp_arrays v2)
              = kernel_outcome (batch_item H batch) n (states v2, device_dp_arrays v2)"
    unfolding StageOneKernel_work_item
    using assms(3) ls la2 st by (intro parallel_for_outcome) (auto simp add: valid_order_def dest: batch_item_fault)
  have krel: "rel_sum (=) (\<lambda>(s1, a1) (s2, a2). s1 = s2 \<and> list_all2 DPArray_same a1 a2)
       (kernel_outcome (batch_item H batch) n (states v1, device_dp_arrays v1))
       (kernel_outcome (batch_item H batch) n (states v2, device_dp_arrays v2))"
  proof (rule kernel_outcome_same)
    fix w assume "w < n"
    then have "DPArray_same (device_dp_arrays v1 ! w) (device_dp_arrays v2 ! w)"
      using dev la by (simp add: list_all2_conv_all_nth)
    then show "rel_sum (=) item_same
        (batch_item H batch w (states v1 ! w, device_dp_arrays v1 ! w))
        (batch_item H batch w (states v2 ! w, device_dp_arrays v2 ! w))"
      unfolding st by (rule batch_item_same)
  qed
  have ord: "dps_in_order n (device_dp_arrays v1) = dps_in_order n (device_dp_arrays v2)"
    by (rule dps_in_order_same [OF dev la])
  show ?thesis
  proof (cases "kernel_outcome (batch_item H batch) n (states v1, device_dp_arrays v1)")
    case (Inl e)
    then have "kernel_outcome (batch_item H batch) n (states v2, device_dp_arrays v2) = Inl e"
      using krel by (cases "kernel_outcome (batch_item H batch) n (states v2, device_dp_arrays v2)") simp_all
    then show ?thesis using Inl by (simp add: stage_one_pass_def Let_def k1 k2)
  next
    case (Inr r1)
    obtain sts a1 where r1: "r1 = (sts, a1)" by (cases r1)
    obtain a2 where K2: "kernel_outcome (batch_item H batch) n (states v2, device_dp_arrays v2)
                          = Inr (sts, a2)"
      and a12: "list_all2 DPArray_same a1 a2"
      using krel Inr r1
      by (cases "kernel_outcome (batch_item H batch) n (states v2, device_dp_arrays v2)") auto
    have len: "length sts = n" "length a1 = n"
      using kernel_outcome_lengths Inr r1 by blast+
    define u1 where "u1 = v1\<lparr>result := (result v1)\<lparr>total_hash_counts :=
          fold (\<lambda>i total. total + hash_count (states v1 ! i)) [0..<n] 0\<rparr>,
        states := sts, device_dp_arrays := a1\<rparr>"
    define u2 where "u2 = v2\<lparr>result := (result v2)\<lparr>total_hash_counts :=
          fold (\<lambda>i total. total + hash_count (states v2 ! i)) [0..<n] 0\<rparr>,
        states := sts, device_dp_arrays := a2\<rparr>"
    have us: "vars_same n u1 u2"
      using assms(1) a12 len by (auto simp add: u1_def u2_def vars_same_def)
    have p1: "stage_one_pass H n batch o1 v1 =
        (case merge_in_order (dps_in_order n (device_dp_arrays v1)) u1 of
           Inl e \<Rightarrow> Inl e
         | Inr (Goto_stage_one_end v) \<Rightarrow> Inr v
         | Inr (Continue v) \<Rightarrow> Inr (v\<lparr>batch_count := batch_count v + 1\<rparr>))"
      using Inr r1 by (simp add: stage_one_pass_def Let_def k1 merge_pass_eq u1_def)
    have p2: "stage_one_pass H n batch o2 v2 =
        (case merge_in_order (dps_in_order n (device_dp_arrays v1)) u2 of
           Inl e \<Rightarrow> Inl e
         | Inr (Goto_stage_one_end v) \<Rightarrow> Inr v
         | Inr (Continue v) \<Rightarrow> Inr (v\<lparr>batch_count := batch_count v + 1\<rparr>))"
      using K2 by (simp add: stage_one_pass_def Let_def k2 merge_pass_eq u2_def ord)
    have mrel: "rel_sum (=) (rel_control (vars_same n))
        (merge_in_order (dps_in_order n (device_dp_arrays v1)) u1)
        (merge_in_order (dps_in_order n (device_dp_arrays v1)) u2)"
      by (rule merge_in_order_same [OF us])
    show ?thesis
      unfolding p1 p2 using mrel
      by (auto simp add: rel_sum.simps vars_same_def split: control.splits sum.splits)
  qed
qed

lemma stage_one_start_same:
  assumes "valid_mem n mem1" and "valid_mem n mem2"
    and "valid_order n o1" and "valid_order n o2"
  shows "rel_sum (=) (vars_same n) (stage_one_start H n batch o1 mem1)
           (stage_one_start H n batch o2 mem2)"
proof -
  obtain s1 a1 where m1: "mem1 = (s1, a1)" by (cases mem1)
  obtain s2 a2 where m2: "mem2 = (s2, a2)" by (cases mem2)
  have l1: "length s1 = n" "length a1 = n" and d1: "\<forall>a \<in> set a1. length (data a) = DP_ARRAY_LEN"
    using assms(1) by (auto simp add: valid_mem_def m1)
  have l2: "length s2 = n" "length a2 = n" and d2: "\<forall>a \<in> set a2. length (data a) = DP_ARRAY_LEN"
    using assms(2) by (auto simp add: valid_mem_def m2)
  have k1: "parallel_for (initial_kernel H batch) o1 (s1, a1)
              = kernel_outcome (initial_item H batch) n (s1, a1)"
    unfolding initial_kernel_work_item
    using assms(3) l1 by (intro parallel_for_outcome) (auto simp add: valid_order_def dest: initial_item_fault)
  have k2: "parallel_for (initial_kernel H batch) o2 (s2, a2)
              = kernel_outcome (initial_item H batch) n (s2, a2)"
    unfolding initial_kernel_work_item
    using assms(4) l2 by (intro parallel_for_outcome) (auto simp add: valid_order_def dest: initial_item_fault)
  have krel: "rel_sum (=) (\<lambda>(s1, a1) (s2, a2). s1 = s2 \<and> list_all2 DPArray_same a1 a2)
       (kernel_outcome (initial_item H batch) n (s1, a1))
       (kernel_outcome (initial_item H batch) n (s2, a2))"
  proof (rule kernel_outcome_same)
    fix w assume "w < n"
    then have "length (data (a1 ! w)) = DP_ARRAY_LEN" "length (data (a2 ! w)) = DP_ARRAY_LEN"
      using l1 l2 d1 d2 by auto
    then show "rel_sum (=) item_same (initial_item H batch w (s1 ! w, a1 ! w))
                 (initial_item H batch w (s2 ! w, a2 ! w))"
      by (rule initial_item_same)
  qed
  show ?thesis
  proof (cases "kernel_outcome (initial_item H batch) n (s1, a1)")
    case (Inl e)
    then have "kernel_outcome (initial_item H batch) n (s2, a2) = Inl e"
      using krel by (cases "kernel_outcome (initial_item H batch) n (s2, a2)") simp_all
    then show ?thesis using Inl by (simp add: stage_one_start_def m1 m2 k1 k2)
  next
    case (Inr r1)
    obtain sts b1 where r1: "r1 = (sts, b1)" by (cases r1)
    obtain b2 where K2: "kernel_outcome (initial_item H batch) n (s2, a2) = Inr (sts, b2)"
      and b12: "list_all2 DPArray_same b1 b2"
      using krel Inr r1
      by (cases "kernel_outcome (initial_item H batch) n (s2, a2)") auto
    have len: "length sts = n" "length b1 = n"
      using kernel_outcome_lengths Inr r1 by blast+
    show ?thesis
      using Inr r1 K2 b12 len
      by (simp add: stage_one_start_def m1 m2 k1 k2 vars_same_def)
  qed
qed

lemma stage_one_loop_same:
  assumes "vars_same n v1 v2"
    and "\<And>j. valid_order n (sched1 j)" and "\<And>j. valid_order n (sched2 j)"
  shows "rel_sum (=) (vars_same n) (stage_one_loop H n batch sched1 fuel v1)
           (stage_one_loop H n batch sched2 fuel v2)"
  using assms(1)
proof (induction fuel arbitrary: v1 v2)
  case 0
  then show ?case by simp
next
  case (Suc fuel)
  have f: "found (result v1) = found (result v2)" and b: "batch_count v1 = batch_count v2"
    using Suc.prems by (auto simp add: vars_same_def)
  show ?case
  proof (cases "found (result v1)")
    case True
    then show ?thesis using Suc.prems f by simp
  next
    case False
    have r: "rel_sum (=) (vars_same n)
               (stage_one_pass H n batch (sched1 (batch_count v1)) v1)
               (stage_one_pass H n batch (sched2 (batch_count v2)) v2)"
      by (rule stage_one_pass_same [OF Suc.prems assms(2,3)])
    show ?thesis
    proof (cases "stage_one_pass H n batch (sched1 (batch_count v1)) v1")
      case (Inl e)
      then have "stage_one_pass H n batch (sched2 (batch_count v2)) v2 = Inl e"
        using r by (cases "stage_one_pass H n batch (sched2 (batch_count v2)) v2") simp_all
      then show ?thesis using Inl False f by simp
    next
      case (Inr u1)
      then obtain u2 where u2: "stage_one_pass H n batch (sched2 (batch_count v2)) v2 = Inr u2"
        and s: "vars_same n u1 u2"
        using r by (cases "stage_one_pass H n batch (sched2 (batch_count v2)) v2") simp_all
      show ?thesis using Inr u2 False f Suc.IH [OF s] by simp
    qed
  qed
qed

lemma vow_stage_one_same:
  assumes "valid_mem n mem1" and "valid_mem n mem2"
    and "\<And>j. valid_order n (sched1 j)" and "\<And>j. valid_order n (sched2 j)"
  shows "rel_sum (=) (vars_same n) (vow_stage_one H n batch sched1 mem1 fuel)
           (vow_stage_one H n batch sched2 mem2 fuel)"
proof -
  have r: "rel_sum (=) (vars_same n) (stage_one_start H n batch (sched1 0) mem1)
             (stage_one_start H n batch (sched2 0) mem2)"
    by (rule stage_one_start_same [OF assms(1,2) assms(3) assms(4)])
  show ?thesis
  proof (cases "stage_one_start H n batch (sched1 0) mem1")
    case (Inl e)
    then have "stage_one_start H n batch (sched2 0) mem2 = Inl e"
      using r by (cases "stage_one_start H n batch (sched2 0) mem2") simp_all
    then show ?thesis using Inl by (simp add: vow_stage_one_def)
  next
    case (Inr u1)
    then obtain u2 where u2: "stage_one_start H n batch (sched2 0) mem2 = Inr u2"
      and s: "vars_same n u1 u2"
      using r by (cases "stage_one_start H n batch (sched2 0) mem2") simp_all
    show ?thesis
      using Inr u2 stage_one_loop_same [OF s assms(3,4)] by (simp add: vow_stage_one_def)
  qed
qed

text \<open>A run that has ended with a hit is not changed by allowing more passes.\<close>

lemma stage_one_loop_found_mono:
  "stage_one_loop H threads batch sched fuel v = Inr v' \<Longrightarrow> found (result v') \<Longrightarrow>
   stage_one_loop H threads batch sched (fuel + k) v = Inr v'"
proof (induction fuel arbitrary: v)
  case 0
  then show ?case by (cases k) simp_all
next
  case (Suc fuel)
  show ?case
  proof (cases "found (result v)")
    case True
    then show ?thesis using Suc.prems by simp
  next
    case False
    then obtain v1 where p: "stage_one_pass H threads batch (sched (batch_count v)) v = Inr v1"
      and l: "stage_one_loop H threads batch sched fuel v1 = Inr v'"
      using Suc.prems(1) by (auto split: sum.splits)
    show ?thesis using False p Suc.IH [OF l Suc.prems(2)] by simp
  qed
qed

lemma vow_stage_one_found_mono:
  assumes "vow_stage_one H threads batch sched mem fuel = Inr v" and "found (result v)"
    and "fuel \<le> fuel'"
  shows "vow_stage_one H threads batch sched mem fuel' = Inr v"
proof -
  obtain k where k: "fuel' = fuel + k" using assms(3) by (auto simp add: le_iff_add)
  obtain v0 where s: "stage_one_start H threads batch (sched 0) mem = Inr v0"
    and l: "stage_one_loop H threads batch sched fuel v0 = Inr v"
    using assms(1) by (auto simp add: vow_stage_one_def split: sum.splits)
  show ?thesis
    using stage_one_loop_found_mono [OF l assms(2), of k] by (simp add: vow_stage_one_def s k)
qed

lemma vow_stage_one_same_fuel:
  assumes "valid_mem threads mem1" and "valid_mem threads mem2"
    and "\<forall>j. valid_order threads (sched1 j)" and "\<forall>j. valid_order threads (sched2 j)"
  shows "map_sum id (\<lambda>v. (result v, dp_map v, host_last_dp v))
           (vow_stage_one H threads batch sched1 mem1 fuel)
       = map_sum id (\<lambda>v. (result v, dp_map v, host_last_dp v))
           (vow_stage_one H threads batch sched2 mem2 fuel)"
proof -
  have "rel_sum (=) (vars_same threads) (vow_stage_one H threads batch sched1 mem1 fuel)
           (vow_stage_one H threads batch sched2 mem2 fuel)"
    using assms by (intro vow_stage_one_same) auto
  then show ?thesis
    by (auto simp add: rel_sum.simps vars_same_def)
qed

text \<open>
  Claim C9. The configuration (hash class, \<open>N\<close>, \<open>K\<close>, prefix, suffix, number of
  walkers, batch size, array length; the seeds are the walker indices) determines the
  outcome of Stage 1: whatever the order in which the work-items of each kernel run and
  whatever the allocator left in the device memory, two runs of the same number of passes
  end with the same fault or with the same result (\<open>x\<close>, \<open>x_steps\<close>, \<open>y\<close>, \<open>y_steps\<close>,
  \<open>dp_collided\<close>, \<open>found\<close>, hash count), the same chain table and the same \<open>last_dp\<close>;
  and two runs that have ended with a hit, after whatever numbers of passes, have ended
  with the same result, chain table and \<open>last_dp\<close>.
\<close>

theorem vow_stage_one_deterministic:
  assumes "valid_mem threads mem1" and "valid_mem threads mem2"
    and "\<forall>j. valid_order threads (sched1 j)" and "\<forall>j. valid_order threads (sched2 j)"
  shows "map_sum id (\<lambda>v. (result v, dp_map v, host_last_dp v))
           (vow_stage_one H threads batch sched1 mem1 fuel)
         = map_sum id (\<lambda>v. (result v, dp_map v, host_last_dp v))
             (vow_stage_one H threads batch sched2 mem2 fuel)
       \<and> (vow_stage_one H threads batch sched1 mem1 fuel1 = Inr v1 \<and> found (result v1)
          \<and> vow_stage_one H threads batch sched2 mem2 fuel2 = Inr v2 \<and> found (result v2)
          \<longrightarrow> result v1 = result v2 \<and> dp_map v1 = dp_map v2
              \<and> host_last_dp v1 = host_last_dp v2)"
proof -
  have same: "map_sum id (\<lambda>v. (result v, dp_map v, host_last_dp v))
           (vow_stage_one H threads batch sched1 mem1 f)
         = map_sum id (\<lambda>v. (result v, dp_map v, host_last_dp v))
             (vow_stage_one H threads batch sched2 mem2 f)" for f
    using assms by (rule vow_stage_one_same_fuel)
  have fin: "result v1 = result v2 \<and> dp_map v1 = dp_map v2 \<and> host_last_dp v1 = host_last_dp v2"
    if r1: "vow_stage_one H threads batch sched1 mem1 fuel1 = Inr v1" and f1: "found (result v1)"
      and r2: "vow_stage_one H threads batch sched2 mem2 fuel2 = Inr v2" and f2: "found (result v2)"
  proof -
    have "vow_stage_one H threads batch sched1 mem1 (max fuel1 fuel2) = Inr v1"
      using r1 f1 by (rule vow_stage_one_found_mono) simp
    moreover have "vow_stage_one H threads batch sched2 mem2 (max fuel1 fuel2) = Inr v2"
      using r2 f2 by (rule vow_stage_one_found_mono) simp
    ultimately show ?thesis
      using same [of "max fuel1 fuel2"] by simp
  qed
  show ?thesis
    using same [of fuel] fin by blast
qed


section \<open>Properties of Stage 1: the chains behind the table\<close>

text \<open>
  The records \<open>es\<close> of one walker, produced one after the other on its chain: each digest
  is reached from the current chain start after the recorded number of evaluations, and
  the next chain starts at the formatted digest.
\<close>

fun records_ok :: "HASH \<Rightarrow> HASH_IN \<Rightarrow> DP list \<Rightarrow> bool" where
  "records_ok H a [] = True"
| "records_ok H a (e # es) =
     (0 < dp_steps_since_last_dp e \<and> dp_hash e = chain_digest H a (dp_steps_since_last_dp e)
      \<and> records_ok H (format_input (dp_hash e)) es)"

definition anchor_after :: "HASH_IN \<Rightarrow> DP list \<Rightarrow> HASH_IN" where
  "anchor_after a es = foldl (\<lambda>a e. format_input (dp_hash e)) a es"

definition walker_at :: "HASH \<Rightarrow> HASH_IN \<Rightarrow> State \<Rightarrow> bool" where
  "walker_at H a st \<longleftrightarrow> format_input (hash st) = chain_input H a (steps_since_last_dp st)"

definition worker_ok :: "HASH \<Rightarrow> HASH_IN \<Rightarrow> DPArray \<Rightarrow> State \<Rightarrow> bool" where
  "worker_ok H a arr st \<longleftrightarrow>
     records_ok H a (DPArray_elems arr) \<and> walker_at H (anchor_after a (DPArray_elems arr)) st
     \<and> length (data arr) = DP_ARRAY_LEN \<and> dp_count arr \<le> DP_ARRAY_LEN"

lemma anchor_after_simps [simp]:
  "anchor_after a [] = a"
  "anchor_after a (e # es) = anchor_after (format_input (dp_hash e)) es"
  "anchor_after a (es @ [e]) = format_input (dp_hash e)"
  by (simp_all add: anchor_after_def)

lemma records_ok_snoc:
  "records_ok H a (es @ [e]) \<longleftrightarrow>
     records_ok H a es \<and> 0 < dp_steps_since_last_dp e
     \<and> dp_hash e = chain_digest H (anchor_after a es) (dp_steps_since_last_dp e)"
  by (induction es arbitrary: a) auto

lemma step_worker_ok:
  assumes "worker_ok H a arr st" and "step H (st, arr) = Inr (st', arr')"
  shows "worker_ok H a arr' st'"
proof -
  define input where "input = format_input (hash st)"
  define d where "d = hash_of H input"
  define s where "s = steps_since_last_dp st"
  have rec: "records_ok H a (DPArray_elems arr)"
    and at: "input = chain_input H (anchor_after a (DPArray_elems arr)) s"
    and len: "length (data arr) = DP_ARRAY_LEN" and cnt: "dp_count arr \<le> DP_ARRAY_LEN"
    using assms(1) by (auto simp add: worker_ok_def walker_at_def input_def s_def)
  have dig: "d = chain_digest H (anchor_after a (DPArray_elems arr)) (s + 1)"
    by (simp add: chain_digest_def d_def at)
  define st3 where "st3 = st\<lparr>hash := d, steps_since_last_dp := s + 1,
                              hash_count := hash_count st + 1\<rparr>"
  show ?thesis
  proof (cases "is_dp H st3")
    case False
    then have "st' = st3" "arr' = arr"
      using assms(2) by (auto simp add: step_def Let_def st3_def d_def input_def s_def)
    then show ?thesis
      using rec len cnt at
      by (simp add: worker_ok_def walker_at_def st3_def d_def)
  next
    case True
    then have ap: "DPArray_append arr input d (s + 1) = Inr arr'"
      and st': "st' = st3\<lparr>last_dp := input, steps_since_last_dp := 0\<rparr>"
      using assms(2)
      by (auto simp add: step_def Let_def st3_def d_def input_def s_def split: sum.splits)
    then have room: "dp_count arr < DP_ARRAY_LEN"
      by (auto simp add: DPArray_append_def split: if_splits)
    obtain arr2 where a2: "DPArray_append arr input d (s + 1) = Inr arr2"
      and e2: "DPArray_elems arr2 = DPArray_elems arr @
                 [\<lparr>dp_in = input, dp_hash = d, dp_steps_since_last_dp = s + 1\<rparr>]"
      and c2: "dp_count arr2 = dp_count arr + 1" and l2: "length (data arr2) = DP_ARRAY_LEN"
      using DPArray_append_room [OF room len] by blast
    have "arr2 = arr'" using ap a2 by simp
    then show ?thesis
      using e2 c2 l2 room rec dig
      by (simp add: worker_ok_def walker_at_def records_ok_snoc st' st3_def)
  qed
qed

lemma steps_worker_ok:
  assumes "worker_ok H a arr st" and "steps H n (st, arr) = Inr (st', arr')"
  shows "worker_ok H a arr' st'"
  using assms
proof (induction n arbitrary: st arr)
  case 0
  then show ?case by simp
next
  case (Suc n)
  obtain st1 arr1 where s1: "step H (st, arr) = Inr (st1, arr1)"
    and rest: "steps H n (st1, arr1) = Inr (st', arr')"
    using Suc.prems(2) by (auto split: sum.splits)
  show ?case
    by (rule Suc.IH [OF step_worker_ok [OF Suc.prems(1) s1] rest])
qed

lemma worker_ok_reset:
  assumes "worker_ok H a arr st"
  shows "worker_ok H (anchor_after a (DPArray_elems arr)) (arr\<lparr>dp_count := 0\<rparr>) st"
  using assms by (simp add: worker_ok_def DPArray_elems_def)

lemma batch_item_worker_ok:
  assumes "worker_ok H a arr st" and "batch_item H batch w (st, arr) = Inr (st', arr')"
  shows "worker_ok H (anchor_after a (DPArray_elems arr)) arr' st'"
  using steps_worker_ok [OF worker_ok_reset [OF assms(1)]] assms(2)
  by (simp add: batch_item_def)

lemma seed_byte:
  assumes "w < 2 ^ 32" and "i < 8"
  shows "(ucast (drop_bit (8 * i) (of_nat w :: 64 word)) :: 8 word)
           = (if i < 4 then ucast (drop_bit (8 * i) (of_nat w :: 32 word)) else 0)"
proof (rule bit_word_eqI)
  fix j assume j: "j < LENGTH(8)"
  have hi: "\<not> bit w m" if "32 \<le> m" for m
  proof -
    have "(2::nat) ^ 32 \<le> 2 ^ m" using that by (intro power_increasing) simp_all
    then have "w < 2 ^ m" using assms(1) by (rule less_le_trans [rotated])
    then have "w div 2 ^ m = 0" by simp
    then show ?thesis by (simp add: bit_iff_odd)
  qed
  show "bit (ucast (drop_bit (8 * i) (of_nat w :: 64 word)) :: 8 word) j
      = bit (if i < 4 then ucast (drop_bit (8 * i) (of_nat w :: 32 word)) else (0 :: 8 word)) j"
    using j assms(2) hi [of "8 * i + j"]
    by (auto simp add: bit_simps)
qed


lemma store_le_64_32:
  assumes "w < 2 ^ 32"
  shows "store_le (of_nat w :: 64 word) = store_le (of_nat w :: 32 word) @ replicate 4 0"
proof (rule nth_equalityI)
  show "length (store_le (of_nat w :: 64 word))
          = length (store_le (of_nat w :: 32 word) @ replicate 4 0)"
    by simp
next
  fix i assume "i < length (store_le (of_nat w :: 64 word))"
  then have i: "i < 8" by simp
  show "store_le (of_nat w :: 64 word) ! i = (store_le (of_nat w :: 32 word) @ replicate 4 0) ! i"
    using i seed_byte [OF assms i]
    by (simp add: store_le_def nth_append)
qed

lemma hash_from_seed_64_32:
  assumes "w < 2 ^ 32" and "8 \<le> OUTPUT_SIZE H"
  shows "hash_from_seed H (of_nat w :: 64 word) = hash_from_seed H (of_nat w :: 32 word)"
proof -
  have "replicate 4 (0::byte) @ replicate (OUTPUT_SIZE H - 8) 0 = replicate (OUTPUT_SIZE H - 4) 0"
    using assms(2) by (simp add: replicate_add [symmetric])
  then show ?thesis
    using assms(2) hash_from_seed_eq [of H "of_nat w :: 64 word"]
      hash_from_seed_eq [of H "of_nat w :: 32 word"]
    by (simp add: store_le_64_32 [OF assms(1)])
qed

lemma init_worker_ok:
  assumes "length (data arr) = DP_ARRAY_LEN"
  shows "case init_worker H idx arr of (st, arr0) \<Rightarrow>
           worker_ok H (format_input (hash_from_seed H (of_nat idx :: 32 word))) arr0 st"
  using assms
  by (simp add: init_worker_def worker_ok_def walker_at_def State_init_def Let_def
        DPArray_elems_def)

lemma initial_item_worker_ok:
  assumes "length (data arr) = DP_ARRAY_LEN"
    and "initial_item H batch idx (s, arr) = Inr (st', arr')"
  shows "worker_ok H (format_input (hash_from_seed H (of_nat idx :: 32 word))) arr' st'"
proof -
  obtain st0 arr0 where i: "init_worker H idx arr = (st0, arr0)" by (cases "init_worker H idx arr")
  have ok: "worker_ok H (format_input (hash_from_seed H (of_nat idx :: 32 word))) arr0 st0"
    using init_worker_ok [OF assms(1), of H idx] i by simp
  show ?thesis
    using steps_worker_ok [OF ok] assms(2) i by (simp add: initial_item_def)
qed

text \<open>The invariant of the chain table and what a hit returns.\<close>

definition table_ok :: "HASH \<Rightarrow> chain_table \<Rightarrow> bool" where
  "table_ok H m \<longleftrightarrow>
     (\<forall>(k, start, len) \<in> set m. 0 < len \<and> take N (chain_digest H start len) = take N k)"

definition result_ok :: "HASH \<Rightarrow> StageOneResult \<Rightarrow> bool" where
  "result_ok H r \<longleftrightarrow>
     0 < x_steps r \<and> 0 < y_steps r
     \<and> take N (chain_digest H (res_x r) (x_steps r)) = take N (dp_collided r)
     \<and> take N (chain_digest H (res_y r) (y_steps r)) = take N (dp_collided r)"

lemma dp_map_find_Some:
  assumes "dp_map_find m k = Inr (Some (cs, cl))"
  shows "\<exists>k'. (k', cs, cl) \<in> set m \<and> take N k' = take N k"
proof -
  have "find (\<lambda>e. DP_KEY_eq (fst e) k) m \<noteq> None"
    using assms by (auto simp add: dp_map_find_def split: if_splits)
  then obtain e where f: "find (\<lambda>e. DP_KEY_eq (fst e) k) m = Some e" by auto
  then have mem: "e \<in> set m" and eq: "DP_KEY_eq (fst e) k"
    by (metis find_Some_iff nth_mem)+
  have "snd e = (cs, cl)"
    using assms f by (auto simp add: dp_map_find_def split: if_splits)
  then obtain k' where e: "e = (k', cs, cl)" by (cases e) auto
  show ?thesis
    using mem eq unfolding e by (auto simp add: DP_KEY_eq_def)
qed

definition records_of :: "nat \<Rightarrow> (nat \<times> DP) list \<Rightarrow> DP list" where
  "records_of w ps = map snd (filter (\<lambda>p. fst p = w) ps)"

lemma records_of_simps [simp]:
  "records_of w [] = []"
  "records_of w ((w', e) # ps) = (if w' = w then e # records_of w ps else records_of w ps)"
  by (simp_all add: records_of_def)

lemma merge_in_order_ok:
  assumes "table_ok H (dp_map v)"
    and "\<forall>w < n. records_ok H (host_last_dp v ! w) (records_of w ps)"
    and "\<forall>p \<in> set ps. fst p < n" and "length (host_last_dp v) = n"
  shows "case merge_in_order ps v of
           Inl f \<Rightarrow> True
         | Inr (Goto_stage_one_end v') \<Rightarrow>
             table_ok H (dp_map v') \<and> found (result v') \<and> result_ok H (result v')
         | Inr (Continue v') \<Rightarrow>
             table_ok H (dp_map v') \<and> length (host_last_dp v') = n
             \<and> (\<forall>w < n. host_last_dp v' ! w = anchor_after (host_last_dp v ! w) (records_of w ps))
             \<and> states v' = states v \<and> device_dp_arrays v' = device_dp_arrays v
             \<and> found (result v') = found (result v)"
  using assms
proof (induction ps arbitrary: v)
  case Nil
  then show ?case by simp
next
  case (Cons p ps)
  obtain w e where p: "p = (w, e)" by (cases p)
  have wn: "w < n" using Cons.prems(3) p by simp
  have e_ok: "0 < dp_steps_since_last_dp e"
    "dp_hash e = chain_digest H (host_last_dp v ! w) (dp_steps_since_last_dp e)"
    and rest_w: "records_ok H (format_input (dp_hash e)) (records_of w ps)"
    using Cons.prems(2) [rule_format, OF wn] unfolding p by auto
  show ?case
  proof (cases "dp_map_find (dp_map v) (dp_hash e)")
    case (Inl f)
    then show ?thesis by (simp add: p)
  next
    case (Inr found_entry)
    show ?thesis
    proof (cases found_entry)
      case (Some entry)
      obtain cs cl where entry: "entry = (cs, cl)" by (cases entry)
      obtain k' where k': "(k', cs, cl) \<in> set (dp_map v)" "take N k' = take N (dp_hash e)"
        using dp_map_find_Some Inr Some entry by blast
      have "0 < cl" "take N (chain_digest H cs cl) = take N k'"
        using Cons.prems(1) k'(1) by (auto simp add: table_ok_def)
      then show ?thesis
        using Inr Some entry e_ok k'(2) Cons.prems(1)
        by (simp add: p result_ok_def)
    next
      case None
      define v1 where "v1 = v\<lparr>dp_map := dp_map v @
            [(dp_hash e, host_last_dp v ! w, dp_steps_since_last_dp e)],
          host_last_dp := (host_last_dp v)[w := format_input (dp_hash e)]\<rparr>"
      have t1: "table_ok H (dp_map v1)"
        using Cons.prems(1) e_ok by (simp add: v1_def table_ok_def)
      have l1: "length (host_last_dp v1) = n" using Cons.prems(4) by (simp add: v1_def)
      have r1: "\<forall>w' < n. records_ok H (host_last_dp v1 ! w') (records_of w' ps)"
      proof (intro allI impI)
        fix w' assume w': "w' < n"
        show "records_ok H (host_last_dp v1 ! w') (records_of w' ps)"
        proof (cases "w' = w")
          case True
          then show ?thesis using rest_w wn Cons.prems(4) by (simp add: v1_def)
        next
          case False
          then show ?thesis
            using Cons.prems(2) [rule_format, OF w'] unfolding p by (auto simp add: v1_def)
        qed
      qed
      have s1: "\<forall>p \<in> set ps. fst p < n" using Cons.prems(3) by simp
      have anchors: "anchor_after (host_last_dp v1 ! w') (records_of w' ps)
                       = anchor_after (host_last_dp v ! w') (records_of w' (p # ps))"
        if "w' < n" for w'
        using that wn Cons.prems(4) by (cases "w' = w") (simp_all add: v1_def p)
      have m: "merge_in_order (p # ps) v = merge_in_order ps v1"
        using Inr None by (simp add: p v1_def)
      show ?thesis
        unfolding m using Cons.IH [OF t1 r1 s1 l1] anchors
        by (auto simp add: v1_def split: sum.splits control.splits)
    qed
  qed
qed

lemma records_of_dps_in_order:
  assumes "w < n"
  shows "records_of w (dps_in_order n arrs) = DPArray_elems (arrs ! w)"
proof -
  have gen: "map snd (filter (\<lambda>p. fst p = w)
               (concat (map (\<lambda>w. map (Pair w) (DPArray_elems (arrs ! w))) ws)))
             = (if w \<in> set ws then DPArray_elems (arrs ! w) else [])"
    if "distinct ws" for ws
    using that
  proof (induction ws)
    case Nil
    then show ?case by simp
  next
    case (Cons a ws)
    have f1: "filter (\<lambda>p. fst p = w) (map (Pair a) xs) = (if a = w then map (Pair a) xs else [])"
      for xs :: "DP list"
      by (induction xs) auto
    show ?case using Cons by (auto simp add: f1 comp_def)
  qed
  show ?thesis
    using gen [of "[0..<n]"] assms by (simp add: records_of_def dps_in_order_def)
qed

lemma dps_in_order_bound: "\<forall>p \<in> set (dps_in_order n arrs). fst p < n"
  by (auto simp add: dps_in_order_def)

text \<open>The invariant at the head of the loop of Stage 1.\<close>

definition stage_one_inv :: "HASH \<Rightarrow> nat \<Rightarrow> stage_one_vars \<Rightarrow> bool" where
  "stage_one_inv H n v \<longleftrightarrow>
     table_ok H (dp_map v)
     \<and> (if found (result v) then result_ok H (result v)
         else length (states v) = n \<and> length (device_dp_arrays v) = n
              \<and> length (host_last_dp v) = n
              \<and> (\<forall>w < n. worker_ok H (host_last_dp v ! w) (device_dp_arrays v ! w)
                            (states v ! w)))"

lemma kernel_outcome_nth:
  assumes "kernel_outcome g n (sts, arrs) = Inr (sts', arrs')" and "w < n"
  shows "g w (sts ! w, arrs ! w) = Inr (sts' ! w, arrs' ! w)"
proof -
  have all: "\<forall>w < n. \<not> isl (g w (sts ! w, arrs ! w))"
    using assms(1) by (auto simp add: kernel_outcome_def split: if_splits)
  then have "sts' ! w = fst (projr (g w (sts ! w, arrs ! w)))"
    "arrs' ! w = snd (projr (g w (sts ! w, arrs ! w)))"
    using assms by (auto simp add: kernel_outcome_def split: if_splits)
  moreover have "\<not> isl (g w (sts ! w, arrs ! w))" using all assms(2) by simp
  ultimately show ?thesis by (cases "g w (sts ! w, arrs ! w)") auto
qed

lemma stage_one_pass_inv:
  assumes "stage_one_inv H n v" and "\<not> found (result v)" and "valid_order n order"
    and "stage_one_pass H n batch order v = Inr v'"
  shows "stage_one_inv H n v'"
proof -
  have tab: "table_ok H (dp_map v)" and ls: "length (states v) = n"
    and la: "length (device_dp_arrays v) = n" and ll: "length (host_last_dp v) = n"
    and wk: "\<And>w. w < n \<Longrightarrow>
               worker_ok H (host_last_dp v ! w) (device_dp_arrays v ! w) (states v ! w)"
    using assms(1,2) by (auto simp add: stage_one_inv_def)
  have k: "parallel_for (StageOneKernel H batch) order (states v, device_dp_arrays v)
             = kernel_outcome (batch_item H batch) n (states v, device_dp_arrays v)"
    unfolding StageOneKernel_work_item
    using assms(3) ls la
    by (intro parallel_for_outcome) (auto simp add: valid_order_def dest: batch_item_fault)
  obtain sts arrs where ko:
    "kernel_outcome (batch_item H batch) n (states v, device_dp_arrays v) = Inr (sts, arrs)"
    using assms(4) by (auto simp add: stage_one_pass_def Let_def k split: sum.splits)
  have len: "length sts = n" "length arrs = n"
    using kernel_outcome_lengths [OF ko] by simp_all
  have wk': "worker_ok H (anchor_after (host_last_dp v ! w) (DPArray_elems (device_dp_arrays v ! w)))
               (arrs ! w) (sts ! w)" if "w < n" for w
    using batch_item_worker_ok [OF wk [OF that]] kernel_outcome_nth [OF ko that] by simp
  define u where "u = v\<lparr>result := (result v)\<lparr>total_hash_counts :=
        fold (\<lambda>i total. total + hash_count (states v ! i)) [0..<n] 0\<rparr>,
      states := sts, device_dp_arrays := arrs\<rparr>"
  define ps where "ps = dps_in_order n (device_dp_arrays v)"
  have pass: "stage_one_pass H n batch order v =
      (case merge_in_order ps u of
         Inl e \<Rightarrow> Inl e
       | Inr (Goto_stage_one_end v2) \<Rightarrow> Inr v2
       | Inr (Continue v2) \<Rightarrow> Inr (v2\<lparr>batch_count := batch_count v2 + 1\<rparr>))"
    using ko by (simp add: stage_one_pass_def Let_def k merge_pass_eq u_def ps_def)
  have recs: "\<forall>w < n. records_ok H (host_last_dp u ! w) (records_of w ps)"
    using wk by (auto simp add: u_def ps_def records_of_dps_in_order worker_ok_def)
  have m: "case merge_in_order ps u of
           Inl f \<Rightarrow> True
         | Inr (Goto_stage_one_end v') \<Rightarrow>
             table_ok H (dp_map v') \<and> found (result v') \<and> result_ok H (result v')
         | Inr (Continue v') \<Rightarrow>
             table_ok H (dp_map v') \<and> length (host_last_dp v') = n
             \<and> (\<forall>w < n. host_last_dp v' ! w = anchor_after (host_last_dp u ! w) (records_of w ps))
             \<and> states v' = states u \<and> device_dp_arrays v' = device_dp_arrays u
             \<and> found (result v') = found (result u)"
    by (rule merge_in_order_ok [OF _ recs])
       (use tab ll dps_in_order_bound in \<open>auto simp add: u_def ps_def\<close>)
  show ?thesis
  proof (cases "merge_in_order ps u")
    case (Inl e)
    then show ?thesis using assms(4) pass by simp
  next
    case (Inr c)
    show ?thesis
    proof (cases c)
      case (Goto_stage_one_end v2)
      then have "v' = v2" using assms(4) pass Inr by simp
      then show ?thesis using m Inr Goto_stage_one_end by (simp add: stage_one_inv_def)
    next
      case (Continue v2)
      then have v': "v' = v2\<lparr>batch_count := batch_count v2 + 1\<rparr>"
        using assms(4) pass Inr by simp
      have f: "\<not> found (result v2)" and t2: "table_ok H (dp_map v2)"
        and l2: "length (host_last_dp v2) = n"
        and s2: "states v2 = sts" and d2: "device_dp_arrays v2 = arrs"
        and a2: "\<And>w. w < n \<Longrightarrow> host_last_dp v2 ! w
                   = anchor_after (host_last_dp v ! w) (DPArray_elems (device_dp_arrays v ! w))"
        using m Inr Continue assms(2)
        by (auto simp add: u_def ps_def records_of_dps_in_order)
      show ?thesis
        using f t2 l2 len wk'
        by (simp add: stage_one_inv_def v' s2 d2 a2)
    qed
  qed
qed

lemma stage_one_start_inv:
  assumes "8 \<le> OUTPUT_SIZE H" and "n \<le> 2 ^ 32"
    and "valid_mem n mem" and "valid_order n order"
    and "stage_one_start H n batch order mem = Inr v"
  shows "stage_one_inv H n v"
proof -
  obtain s0 a0 where mem: "mem = (s0, a0)" by (cases mem)
  have l0: "length s0 = n" "length a0 = n" and d0: "\<And>w. w < n \<Longrightarrow> length (data (a0 ! w)) = DP_ARRAY_LEN"
    using assms(3) by (auto simp add: valid_mem_def mem)
  have k: "parallel_for (initial_kernel H batch) order (s0, a0)
             = kernel_outcome (initial_item H batch) n (s0, a0)"
    unfolding initial_kernel_work_item
    using assms(4) l0
    by (intro parallel_for_outcome) (auto simp add: valid_order_def dest: initial_item_fault)
  obtain sts arrs where ko: "kernel_outcome (initial_item H batch) n (s0, a0) = Inr (sts, arrs)"
    using assms(5) by (auto simp add: stage_one_start_def mem k split: sum.splits)
  have len: "length sts = n" "length arrs = n"
    using kernel_outcome_lengths [OF ko] by simp_all
  have v: "v = \<lparr>states = sts, device_dp_arrays = arrs, dp_map = [],
               host_last_dp =
                 map (\<lambda>i. format_input (hash_from_seed H (of_nat i :: 64 word))) [0..<n],
               result = \<lparr>x_steps = 0, y_steps = 0, total_hash_counts = 0, res_x = [],
                          res_y = [], dp_collided = [], found = False\<rparr>,
               batch_count = 1\<rparr>"
    using assms(5) ko by (simp add: stage_one_start_def mem k)
  have wk: "worker_ok H (host_last_dp v ! w) (arrs ! w) (sts ! w)" if "w < n" for w
  proof -
    have "w < 2 ^ 32" using that assms(2) by simp
    then have "host_last_dp v ! w = format_input (hash_from_seed H (of_nat w :: 32 word))"
      using that by (simp add: v hash_from_seed_64_32 [OF _ assms(1)])
    then show ?thesis
      using initial_item_worker_ok [OF d0 [OF that]] kernel_outcome_nth [OF ko that] by simp
  qed
  show ?thesis
    using wk len by (simp add: stage_one_inv_def v table_ok_def)
qed

lemma stage_one_loop_inv:
  assumes "stage_one_inv H n v" and "\<And>j. valid_order n (sched j)"
    and "stage_one_loop H n batch sched fuel v = Inr v'"
  shows "stage_one_inv H n v'"
  using assms(1,3)
proof (induction fuel arbitrary: v)
  case 0
  then show ?case by simp
next
  case (Suc fuel)
  show ?case
  proof (cases "found (result v)")
    case True
    then show ?thesis using Suc.prems by simp
  next
    case False
    then obtain v1 where p: "stage_one_pass H n batch (sched (batch_count v)) v = Inr v1"
      and l: "stage_one_loop H n batch sched fuel v1 = Inr v'"
      using Suc.prems(2) by (auto split: sum.splits)
    show ?thesis
      by (rule Suc.IH [OF stage_one_pass_inv [OF Suc.prems(1) False assms(2) p] l])
  qed
qed

text \<open>
  Claim C2. After any number of passes of Stage 1 every entry (start, length) of the
  chain table under a key \<open>k\<close> has \<open>length > 0\<close>, and the digest produced by the
  \<open>length\<close>-th hash evaluation of the chain from \<open>start\<close> (the first evaluation being the
  hash of \<open>start\<close>) agrees with \<open>k\<close> on the first \<open>N\<close> bytes. This covers the entries that
  start at a formatted seed and those that start at the formatted digest of the walker's
  previous distinguishable point. When Stage 1 has ended with a hit, the same holds of
  \<open>(x, x_steps)\<close> and of \<open>(y, y_steps)\<close> with the colliding digest as key.
\<close>

theorem chain_table_invariant:
  assumes "8 \<le> OUTPUT_SIZE H" and "threads \<le> 2 ^ 32"
    and "valid_mem threads mem" and "\<forall>j. valid_order threads (sched j)"
    and "vow_stage_one H threads batch sched mem fuel = Inr v"
  shows "(\<forall>(k, start, len) \<in> set (dp_map v).
            0 < len \<and> take N (chain_digest H start len) = take N k)
       \<and> (found (result v) \<longrightarrow>
            0 < x_steps (result v) \<and> 0 < y_steps (result v)
            \<and> take N (chain_digest H (res_x (result v)) (x_steps (result v)))
                = take N (dp_collided (result v))
            \<and> take N (chain_digest H (res_y (result v)) (y_steps (result v)))
                = take N (dp_collided (result v)))"
proof -
  obtain v0 where s: "stage_one_start H threads batch (sched 0) mem = Inr v0"
    and l: "stage_one_loop H threads batch sched fuel v0 = Inr v"
    using assms(5) by (auto simp add: vow_stage_one_def split: sum.splits)
  have o: "valid_order threads (sched j)" for j using assms(4) by simp
  have "stage_one_inv H threads v0"
    by (rule stage_one_start_inv [OF assms(1,2,3) o s])
  then have "stage_one_inv H threads v"
    using o l by (rule stage_one_loop_inv)
  then show ?thesis
    by (auto simp add: stage_one_inv_def table_ok_def result_ok_def)
qed


section \<open>A run of Stage 1\<close>

text \<open>
  Stage 1 with two walkers, batches of four steps and one pass of the loop, under
  \<open>toy_hash\<close>. Walker 0 records the digests \<open>toy_out 0 4\<close> and \<open>toy_out 0 8\<close> in its first
  batch, walker 1 the same two digests from other inputs; the merge inserts the two
  records of walker 0 and ends at the first record of walker 1.
\<close>

lemma steps_numeral:
  "steps H (numeral k) w = (case step H w of Inl e \<Rightarrow> Inl e | Inr w1 \<Rightarrow> steps H (pred_numeral k) w1)"
  by (simp add: numeral_eq_Suc)

lemma list_update_numeral: "(x # xs)[numeral k := y] = x # xs[pred_numeral k := y]"
  by (simp add: numeral_eq_Suc)


lemma store_le_32_0: "store_le (0 :: 32 word) = [0, 0, 0, 0]"
  by (simp add: store_le_def upt_0_4)

lemma store_le_32_1: "store_le (1 :: 32 word) = [1, 0, 0, 0]"
  by (simp add: store_le_def upt_0_4 drop_bit_eq_div)

lemma store_le_64_0: "store_le (0 :: 64 word) = [0, 0, 0, 0, 0, 0, 0, 0]"
  by (simp add: store_le_def upt_0_8)

lemma store_le_64_1: "store_le (1 :: 64 word) = [1, 0, 0, 0, 0, 0, 0, 0]"
  by (simp add: store_le_def upt_0_8 drop_bit_eq_div)

lemma format_toy_out: "format_input (toy_out a b) = toy_in a b"
  by (simp add: format_input_eq N_def toy_out_def toy_in_def prefix_def suffix_def replicate_numeral)

lemma hash_toy_in:
  "hash_of toy_hash (toy_in a b) =
     (if (a + b + 2) AND 2 = 0 then toy_out 0 ((a + b + 2) AND 0xFE) else toy_out (a + b + 2) 0)"
  by (simp add: toy_hash_def toy_in_def toy_out_def Let_def replicate_numeral)

lemma seed_toy_32_0: "hash_from_seed toy_hash (0 :: 32 word) = toy_out 0 0"
  by (simp add: hash_from_seed_def store_le_32_0 copy_to_def toy_hash_def toy_out_def replicate_numeral)

lemma seed_toy_32_1: "hash_from_seed toy_hash (1 :: 32 word) = toy_out 1 0"
  by (simp add: hash_from_seed_def store_le_32_1 copy_to_def toy_hash_def toy_out_def replicate_numeral)

lemma seed_toy_64_0: "hash_from_seed toy_hash (0 :: 64 word) = toy_out 0 0"
  by (simp add: hash_from_seed_def store_le_64_0 copy_to_def toy_hash_def toy_out_def replicate_numeral)

lemma seed_toy_64_1: "hash_from_seed toy_hash (1 :: 64 word) = toy_out 1 0"
  by (simp add: hash_from_seed_def store_le_64_1 copy_to_def toy_hash_def toy_out_def replicate_numeral)

lemma is_dp_toy:
  "is_dp toy_hash \<lparr>hash_count = c, steps_since_last_dp = s, last_dp = l, hash = toy_out a b\<rparr>
     \<longleftrightarrow> a = 0"
  by (simp add: is_dp_def ZERO_HASH_def toy_hash_def toy_out_def K_def replicate_numeral)


lemma DP_KEY_eq_toy: "DP_KEY_eq (toy_out a b) (toy_out c d) \<longleftrightarrow> a = c \<and> b = d"
  by (auto simp add: DP_KEY_eq_def N_def toy_out_def replicate_numeral)

lemma DP_KEY_hash_toy: "DP_KEY_hash (toy_out a b) = ucast b"
  by (simp add: DP_KEY_hash_def load_le_def K_def toy_out_def replicate_numeral)

lemma upt_0_2: "[0..<2] = [0, Suc 0]"
  by (simp add: upt_rec)

lemmas run_eval = vow_stage_one_def stage_one_start_def stage_one_pass_def initial_kernel_def
  StageOneKernel_def init_worker_def State_init_def step_def Let_def is_dp_toy format_toy_out
  hash_toy_in seed_toy_32_0 seed_toy_32_1 seed_toy_64_0 seed_toy_64_1
  DPArray_append_def DPArray_elems_def DP_ARRAY_LEN_def tv_arr_def toy_mem_def merge_pass_def
  dp_map_find_def dp_map_assign_def DP_KEY_eq_toy DP_KEY_hash_toy upt_0_2
  steps_numeral list_update_numeral replicate_numeral

lemma toy_run:
  "map_sum id (\<lambda>v. (result v, dp_map v, host_last_dp v))
     (vow_stage_one toy_hash 2 4 (\<lambda>j. [0, 1]) (toy_mem 0) 1)
   = Inr (toy_result, toy_table, [toy_in 0 8, toy_in 1 0])"
  by (simp add: run_eval toy_result_def toy_table_def)

lemma valid_mem_toy: "valid_mem 2 (toy_mem n)"
  by (simp add: valid_mem_def toy_mem_def tv_arr_def)

lemma valid_order_01: "valid_order 2 [0, 1]"
  by (auto simp add: valid_order_def)

lemma valid_order_10: "valid_order 2 [1, 0]"
  by (auto simp add: valid_order_def)

text \<open>
  The run from other contents of the device memory, with the work-items in the other
  order, ends in the same result, table and \<open>last_dp\<close>, also when it is allowed three
  passes instead of one.
\<close>

theorem vow_stage_one_deterministic_witness:
  "valid_mem 2 (toy_mem 0) \<and> valid_mem 2 (toy_mem 5)
   \<and> valid_order 2 [0, 1] \<and> valid_order 2 [1, 0]
   \<and> map_sum id (\<lambda>v. (result v, dp_map v, host_last_dp v))
         (vow_stage_one toy_hash 2 4 (\<lambda>j. [1, 0]) (toy_mem 5) 1)
       = Inr (toy_result, toy_table, [toy_in 0 8, toy_in 1 0])
   \<and> (\<exists>v1 v2. vow_stage_one toy_hash 2 4 (\<lambda>j. [0, 1]) (toy_mem 0) 1 = Inr v1
          \<and> found (result v1)
          \<and> vow_stage_one toy_hash 2 4 (\<lambda>j. [1, 0]) (toy_mem 5) 3 = Inr v2
          \<and> found (result v2)
          \<and> result v1 = result v2 \<and> dp_map v1 = dp_map v2
          \<and> host_last_dp v1 = host_last_dp v2)"
proof -
  have o1: "\<forall>j::nat. valid_order 2 [0, 1]" and o2: "\<forall>j::nat. valid_order 2 [1, 0]"
    using valid_order_01 valid_order_10 by blast+
  note det = vow_stage_one_deterministic [OF valid_mem_toy [of 0] valid_mem_toy [of 5] o1 o2,
      where H = toy_hash and batch = 4]
  have same: "map_sum id (\<lambda>v. (result v, dp_map v, host_last_dp v))
          (vow_stage_one toy_hash 2 4 (\<lambda>j. [0, 1]) (toy_mem 0) 1)
      = map_sum id (\<lambda>v. (result v, dp_map v, host_last_dp v))
          (vow_stage_one toy_hash 2 4 (\<lambda>j. [1, 0]) (toy_mem 5) 1)"
    using det [where fuel = 1] by blast
  then have run2: "map_sum id (\<lambda>v. (result v, dp_map v, host_last_dp v))
         (vow_stage_one toy_hash 2 4 (\<lambda>j. [1, 0]) (toy_mem 5) 1)
       = Inr (toy_result, toy_table, [toy_in 0 8, toy_in 1 0])"
    using toy_run by simp
  obtain v1 where r1: "vow_stage_one toy_hash 2 4 (\<lambda>j. [0, 1]) (toy_mem 0) 1 = Inr v1"
    and f1: "found (result v1)"
    using toy_run
    by (cases "vow_stage_one toy_hash 2 4 (\<lambda>j. [0, 1]) (toy_mem 0) 1")
       (auto simp add: toy_result_def)
  obtain v2 where r2: "vow_stage_one toy_hash 2 4 (\<lambda>j. [1, 0]) (toy_mem 5) 1 = Inr v2"
    and f2: "found (result v2)"
    using run2
    by (cases "vow_stage_one toy_hash 2 4 (\<lambda>j. [1, 0]) (toy_mem 5) 1")
       (auto simp add: toy_result_def)
  have r3: "vow_stage_one toy_hash 2 4 (\<lambda>j. [1, 0]) (toy_mem 5) 3 = Inr v2"
    using r2 f2 by (rule vow_stage_one_found_mono) simp
  have "result v1 = result v2 \<and> dp_map v1 = dp_map v2 \<and> host_last_dp v1 = host_last_dp v2"
    using det [where ?fuel1.0 = 1 and ?fuel2.0 = 3 and ?v1.0 = v1 and ?v2.0 = v2] r1 f1 r3 f2
    by blast
  then show ?thesis
    using valid_mem_toy valid_order_01 valid_order_10 run2 r1 f1 r3 f2 by blast
qed

text \<open>
  The table of the run holds one entry that starts at a formatted seed and one that
  starts at the formatted digest of the walker's previous distinguishable point; the hit
  is the record of walker 1.
\<close>

theorem chain_table_invariant_witness:
  "8 \<le> OUTPUT_SIZE toy_hash \<and> valid_mem 2 (toy_mem 0) \<and> valid_order 2 [0, 1]
   \<and> (\<exists>v. vow_stage_one toy_hash 2 4 (\<lambda>j. [0, 1]) (toy_mem 0) 1 = Inr v
          \<and> dp_map v = toy_table \<and> result v = toy_result)
   \<and> take N (chain_digest toy_hash (toy_in 0 0) 2) = take N (toy_out 0 4)
   \<and> take N (chain_digest toy_hash (toy_in 0 4) 2) = take N (toy_out 0 8)
   \<and> take N (chain_digest toy_hash (toy_in 1 0) 2) = take N (toy_out 0 4)"
proof -
  obtain v where run: "vow_stage_one toy_hash 2 4 (\<lambda>j. [0, 1]) (toy_mem 0) 1 = Inr v"
    and tab: "dp_map v = toy_table" and res: "result v = toy_result"
    using toy_run by (cases "vow_stage_one toy_hash 2 4 (\<lambda>j. [0, 1]) (toy_mem 0) 1") auto
  have h: "8 \<le> OUTPUT_SIZE toy_hash" by (simp add: toy_hash_def)
  have th: "(2::nat) \<le> 2 ^ 32" by simp
  have o1: "\<forall>j::nat. valid_order 2 [0, 1]" using valid_order_01 by blast
  have inv: "(\<forall>(k, start, len) \<in> set (dp_map v).
                0 < len \<and> take N (chain_digest toy_hash start len) = take N k)
           \<and> (found (result v) \<longrightarrow>
                0 < x_steps (result v) \<and> 0 < y_steps (result v)
                \<and> take N (chain_digest toy_hash (res_x (result v)) (x_steps (result v)))
                    = take N (dp_collided (result v))
                \<and> take N (chain_digest toy_hash (res_y (result v)) (y_steps (result v)))
                    = take N (dp_collided (result v)))"
    by (rule chain_table_invariant [OF h th valid_mem_toy o1 run])
  have e1: "take N (chain_digest toy_hash (toy_in 0 0) 2) = take N (toy_out 0 4)"
    and e2: "take N (chain_digest toy_hash (toy_in 0 4) 2) = take N (toy_out 0 8)"
    using inv by (simp_all add: tab toy_table_def)
  have e3: "take N (chain_digest toy_hash (toy_in 1 0) 2) = take N (toy_out 0 4)"
    using inv by (simp add: res toy_result_def)
  show ?thesis
    using h valid_mem_toy valid_order_01 run tab res e1 e2 e3 by blast
qed

text \<open>
  Stage 2 on the result of the run under \<open>toy_hash\<close>: both chains have two evaluations,
  no state is stepped by the alignment, and one step of both states reaches the two
  different inputs \<open>toy_in 2 0\<close> and \<open>toy_in 3 0\<close> of the digest \<open>toy_out 0 4\<close>.
\<close>

lemma toy_stage_two:
  "vow_stage_two toy_hash toy_result =
     (\<lparr>s2_in = toy_in 2 0, s2_out = toy_out 0 4, s2_hash_count = 2\<rparr>,
      \<lparr>s2_in = toy_in 3 0, s2_out = toy_out 0 4, s2_hash_count = 2\<rparr>)"
proof -
  have al: "stage_two_align toy_hash toy_result =
      (\<lparr>s2_in = toy_in 0 0, s2_out = toy_out 2 0, s2_hash_count = 1\<rparr>,
       \<lparr>s2_in = toy_in 1 0, s2_out = toy_out 3 0, s2_hash_count = 1\<rparr>, 2, 2)"
    by (simp add: stage_two_align_def Let_def toy_result_def align_x_loop.simps
          align_y_loop.simps StageTwoState_init_def hash_toy_in)
  show ?thesis
    by (simp add: vow_stage_two_def al walk_loop.simps StageTwoState_eq_def
          StageTwoState_step_def Let_def hash_toy_in format_toy_out)
       (simp add: N_def toy_out_def)
qed

text \<open>
  Stage 1 and Stage 2 under \<open>toy_count\<close>, two walkers and batches of four steps. The
  chain of walker 0 starts at the formatted seed 0 and has the formatted seed 1 as its
  second input; both walkers record the digest \<open>toy_out 0 4\<close>, walker 0 after four
  evaluations and walker 1 after three.
\<close>

lemma hash_count_in:
  "hash_of toy_count (toy_in a b) =
     (if (a + b + 1) AND 3 = 0 then toy_out 0 (a + b + 1) else toy_out (a + b + 1) 0)"
  by (simp add: toy_count_def toy_in_def toy_out_def Let_def replicate_numeral)

lemma seed_count_32_0: "hash_from_seed toy_count (0 :: 32 word) = toy_out 0 0"
  by (simp add: hash_from_seed_def store_le_32_0 copy_to_def toy_count_def toy_out_def replicate_numeral)

lemma seed_count_32_1: "hash_from_seed toy_count (1 :: 32 word) = toy_out 1 0"
  by (simp add: hash_from_seed_def store_le_32_1 copy_to_def toy_count_def toy_out_def replicate_numeral)

lemma seed_count_64_0: "hash_from_seed toy_count (0 :: 64 word) = toy_out 0 0"
  by (simp add: hash_from_seed_def store_le_64_0 copy_to_def toy_count_def toy_out_def replicate_numeral)

lemma seed_count_64_1: "hash_from_seed toy_count (1 :: 64 word) = toy_out 1 0"
  by (simp add: hash_from_seed_def store_le_64_1 copy_to_def toy_count_def toy_out_def replicate_numeral)

lemma is_dp_count:
  "is_dp toy_count \<lparr>hash_count = c, steps_since_last_dp = s, last_dp = l, hash = toy_out a b\<rparr>
     \<longleftrightarrow> a = 0"
  by (simp add: is_dp_def ZERO_HASH_def toy_count_def toy_out_def K_def replicate_numeral)

lemmas count_eval = vow_stage_one_def stage_one_start_def stage_one_pass_def initial_kernel_def
  StageOneKernel_def init_worker_def State_init_def step_def Let_def is_dp_count format_toy_out
  hash_count_in seed_count_32_0 seed_count_32_1 seed_count_64_0 seed_count_64_1
  DPArray_append_def DPArray_elems_def DP_ARRAY_LEN_def tv_arr_def toy_mem_def merge_pass_def
  dp_map_find_def dp_map_assign_def DP_KEY_eq_toy DP_KEY_hash_toy upt_0_2
  steps_numeral list_update_numeral replicate_numeral

lemma count_run:
  "map_sum id result (vow_stage_one toy_count 2 4 (\<lambda>j. [0, 1]) (toy_mem 0) 1) = Inr count_result"
  by (simp add: count_eval count_result_def)

lemma count_stage_two:
  "vow_stage_two toy_count count_result =
     (\<lparr>s2_in = toy_in 1 0, s2_out = toy_out 2 0, s2_hash_count = 2\<rparr>,
      \<lparr>s2_in = toy_in 1 0, s2_out = toy_out 2 0, s2_hash_count = 1\<rparr>)"
proof -
  have al: "stage_two_align toy_count count_result =
      (\<lparr>s2_in = toy_in 1 0, s2_out = toy_out 2 0, s2_hash_count = 2\<rparr>,
       \<lparr>s2_in = toy_in 1 0, s2_out = toy_out 2 0, s2_hash_count = 1\<rparr>, 3, 3)"
    by (simp add: stage_two_align_def Let_def count_result_def align_x_loop.simps
          align_y_loop.simps StageTwoState_init_def StageTwoState_step_def hash_count_in
          format_toy_out)
  show ?thesis
    by (simp add: vow_stage_two_def al walk_loop.simps StageTwoState_eq_def)
qed

text \<open>
  Claim C1 as stated fails where it says that the two inputs differ. The run of Stage 1
  above ends with the result \<open>count_result\<close>, in which \<open>x\<close> is the formatted seed 0 and
  \<open>y\<close> the formatted seed 1; Stage 2 steps the \<open>x\<close> state once, finds the two digests
  equal and returns the input \<open>y\<close> twice.
\<close>

theorem stage_two_equal_inputs:
  "map_sum id result (vow_stage_one toy_count 2 4 (\<lambda>j. [0, 1]) (toy_mem 0) 1) = Inr count_result
   \<and> found count_result \<and> res_x count_result \<noteq> res_y count_result
   \<and> s2_in (fst (vow_stage_two toy_count count_result))
       = s2_in (snd (vow_stage_two toy_count count_result))"
proof -
  have ne: "toy_in 0 0 \<noteq> toy_in 1 0" by (simp add: toy_in_def)
  have f: "found count_result" "res_x count_result = toy_in 0 0"
    "res_y count_result = toy_in 1 0"
    by (simp_all add: count_result_def)
  show ?thesis
    unfolding count_stage_two f(2,3) using count_run ne f(1) by simp
qed

text \<open>
  Stage 1 under \<open>toy_split\<close>. Walker 0 records \<open>split_out 4 0\<close>, which the merge inserts;
  the first record of walker 1 is \<open>split_out 4 1\<close>, equal to the stored key on the first
  \<open>N\<close> bytes with another hash value: the run reaches the lookup without a defined
  result at the very collision that the search is for.
\<close>

lemma format_split_out: "format_input (split_out b c) = toy_in 0 b"
  by (simp add: format_input_eq N_def split_out_def toy_in_def prefix_def suffix_def replicate_numeral)

lemma hash_split_in:
  "hash_of toy_split (toy_in a b) =
     (if (a + b + 2) AND 2 = 0 then split_out ((a + b + 2) AND 0xFE) ((a + b + 2) AND 1)
      else toy_out (a + b + 2) 0)"
  by (simp add: toy_split_def toy_in_def toy_out_def split_out_def Let_def replicate_numeral)

lemma seed_split_32_0: "hash_from_seed toy_split (0 :: 32 word) = toy_out 0 0"
  by (simp add: hash_from_seed_def store_le_32_0 copy_to_def toy_split_def toy_out_def replicate_numeral)

lemma seed_split_32_1: "hash_from_seed toy_split (1 :: 32 word) = toy_out 1 0"
  by (simp add: hash_from_seed_def store_le_32_1 copy_to_def toy_split_def toy_out_def replicate_numeral)

lemma seed_split_64_0: "hash_from_seed toy_split (0 :: 64 word) = toy_out 0 0"
  by (simp add: hash_from_seed_def store_le_64_0 copy_to_def toy_split_def toy_out_def replicate_numeral)

lemma seed_split_64_1: "hash_from_seed toy_split (1 :: 64 word) = toy_out 1 0"
  by (simp add: hash_from_seed_def store_le_64_1 copy_to_def toy_split_def toy_out_def replicate_numeral)

lemma is_dp_split_toy_out:
  "is_dp toy_split \<lparr>hash_count = c, steps_since_last_dp = s, last_dp = l, hash = toy_out a b\<rparr>
     \<longleftrightarrow> a = 0"
  by (simp add: is_dp_def ZERO_HASH_def toy_split_def toy_out_def K_def replicate_numeral)

lemma is_dp_split_out:
  "is_dp toy_split \<lparr>hash_count = c, steps_since_last_dp = s, last_dp = l, hash = split_out a b\<rparr>"
  by (simp add: is_dp_def ZERO_HASH_def toy_split_def split_out_def K_def replicate_numeral)

lemma DP_KEY_eq_split: "DP_KEY_eq (split_out a b) (split_out c d) \<longleftrightarrow> a = c"
  by (auto simp add: DP_KEY_eq_def N_def split_out_def replicate_numeral)

lemma DP_KEY_hash_split_4_0: "DP_KEY_hash (split_out 4 0) = 4"
  by (simp add: DP_KEY_hash_def load_le_def K_def split_out_def replicate_numeral)

lemma DP_KEY_hash_split_8_0: "DP_KEY_hash (split_out 8 0) = 8"
  by (simp add: DP_KEY_hash_def load_le_def K_def split_out_def replicate_numeral)

lemma DP_KEY_hash_split_4_1: "DP_KEY_hash (split_out 4 1) = 0x1000000000004"
  by (simp add: DP_KEY_hash_def load_le_def K_def split_out_def replicate_numeral)

lemmas split_eval = vow_stage_one_def stage_one_start_def stage_one_pass_def initial_kernel_def
  StageOneKernel_def init_worker_def State_init_def step_def Let_def is_dp_split_toy_out
  is_dp_split_out format_toy_out format_split_out
  hash_split_in seed_split_32_0 seed_split_32_1 seed_split_64_0 seed_split_64_1
  DPArray_append_def DPArray_elems_def DP_ARRAY_LEN_def tv_arr_def toy_mem_def merge_pass_def
  dp_map_find_def dp_map_assign_def DP_KEY_eq_split DP_KEY_hash_split_4_0 DP_KEY_hash_split_8_0
  DP_KEY_hash_split_4_1 upt_0_2
  steps_numeral list_update_numeral replicate_numeral

lemma split_run:
  "vow_stage_one toy_split 2 4 (\<lambda>j. [0, 1]) (toy_mem 0) 1 = Inl Hash_requirement_violated"
  by (simp add: split_eval)

end
